theory Spec2Isabelle
  imports Complex_Main "HOL-Library.Word" "HOL-Library.AList" "HOL-Library.Multiset"
begin

unbundle bit_operations_syntax

section \<open>JavaScript values, objects and Maps\<close>

text \<open>
  The store of \<^verbatim>\<open>server/storage.ts\<close> keeps plain JavaScript objects and builds them with
  the object spread (\<^verbatim>\<open>{ ...draft, id, createdAt: new Date() }\<close>), so a record of the
  store is modelled as what it is at run time: a finite map from property names to
  JavaScript values. A string is the list of the bytes of its UTF-8 encoding, a number is
  a rational (the doubles of the source, idealised: no rounding, no NaN), a
  \<^verbatim>\<open>Date\<close> is its millisecond count. Arrays and nested objects are carried as trees; the
  modelled code only stores and copies them, apart from \<^verbatim>\<open>Array.isArray\<close> and
  \<^verbatim>\<open>includes\<close> on a subscription's event list.
\<close>

datatype jsval =
    JUndefined
  | JNull
  | JBool bool
  | JNum rat
  | JStr string
  | JDate nat
  | JArr "jsval list"
  | JObj "(string \<times> jsval) list"

type_synonym obj = "string \<rightharpoonup> jsval"

text \<open>Reading a property: an absent property reads as \<^verbatim>\<open>undefined\<close>.\<close>

definition field :: "obj \<Rightarrow> string \<Rightarrow> jsval" where
  "field ob k = (case ob k of None \<Rightarrow> JUndefined | Some v \<Rightarrow> v)"

text \<open>JavaScript truthiness, as used by \<^verbatim>\<open>!x\<close>, \<^verbatim>\<open>x && y\<close>, \<^verbatim>\<open>x || y\<close> and \<^verbatim>\<open>if (x)\<close>.\<close>

fun truthy :: "jsval \<Rightarrow> bool" where
  "truthy JUndefined = False"
| "truthy JNull = False"
| "truthy (JBool b) = b"
| "truthy (JNum n) = (n \<noteq> 0)"
| "truthy (JStr s) = (s \<noteq> [])"
| "truthy (JDate t) = True"
| "truthy (JArr xs) = True"
| "truthy (JObj kvs) = True"

text \<open>\<^verbatim>\<open>a || b\<close> on values.\<close>

definition js_or :: "jsval \<Rightarrow> jsval \<Rightarrow> jsval" where
  "js_or a b = (if truthy a then a else b)"

text \<open>
  A JavaScript \<^verbatim>\<open>Map\<close> iterates in insertion order, and \<^verbatim>\<open>set\<close> on a key that is
  present replaces the value in place: an association list with \<^const>\<open>AList.update\<close>.
\<close>

type_synonym 'v jsmap = "(jsval \<times> 'v) list"

definition Map_get :: "'v jsmap \<Rightarrow> jsval \<Rightarrow> 'v option" where
  "Map_get m k = map_of m k"

definition Map_set :: "jsval \<Rightarrow> 'v \<Rightarrow> 'v jsmap \<Rightarrow> 'v jsmap" where
  "Map_set k v m = AList.update k v m"

definition Map_delete :: "jsval \<Rightarrow> 'v jsmap \<Rightarrow> 'v jsmap" where
  "Map_delete k m = AList.delete k m"

definition Map_values :: "'v jsmap \<Rightarrow> 'v list" where
  "Map_values m = map snd m"

definition Map_keys :: "'v jsmap \<Rightarrow> jsval list" where
  "Map_keys m = map fst m"

section \<open>Signature codec (\<^verbatim>\<open>WebhookService.generateSignature\<close>, \<^verbatim>\<open>verifySignature\<close>)\<close>

text \<open>
  The hash itself is Node's \<^verbatim>\<open>crypto.createHmac('sha256', key)\<close>, a library function:
  it is a parameter \<open>hmac\<close> of the model, from the key bytes and the message bytes to the
  digest bytes. \<^verbatim>\<open>digest('hex')\<close> and \<^verbatim>\<open>crypto.timingSafeEqual\<close> are modelled: the
  latter throws a \<^verbatim>\<open>RangeError\<close> when its two buffers differ in byte length.
\<close>

type_synonym byte = "8 word"
type_synonym buffer = "byte list"
type_synonym hmac_fn = "buffer \<Rightarrow> buffer \<Rightarrow> buffer"

datatype error =
    RangeError
  | TypeError
  | NetworkError string
  | UpstreamError string

definition Buffer_from :: "string \<Rightarrow> buffer" where
  "Buffer_from s = map (\<lambda>c. of_nat (of_char c)) s"

definition hex_digit :: "byte \<Rightarrow> char" where
  "hex_digit n = ''0123456789abcdef'' ! unat n"

definition digest_hex :: "buffer \<Rightarrow> string" where
  "digest_hex bs = concat (map (\<lambda>b. [hex_digit (drop_bit 4 b), hex_digit (b AND 0x0F)]) bs)"

definition generateSignature :: "hmac_fn \<Rightarrow> string \<Rightarrow> string \<Rightarrow> string" where
  "generateSignature hmac payload secret =
     digest_hex (hmac (Buffer_from secret) (Buffer_from payload))"

definition timingSafeEqual :: "buffer \<Rightarrow> buffer \<Rightarrow> error + bool" where
  "timingSafeEqual a b =
     (if length a \<noteq> length b then Inl RangeError else Inr (a = b))"

definition verifySignature :: "hmac_fn \<Rightarrow> string \<Rightarrow> string \<Rightarrow> string \<Rightarrow> error + bool" where
  "verifySignature hmac payload signature secret =
     (let expectedSignature = generateSignature hmac payload secret
      in timingSafeEqual (Buffer_from signature) (Buffer_from expectedSignature))"

definition verifyIncomingWebhook :: "hmac_fn \<Rightarrow> string \<Rightarrow> string \<Rightarrow> string \<Rightarrow> error + bool" where
  "verifyIncomingWebhook hmac body signature secret = verifySignature hmac body signature secret"

section \<open>The entity store (\<^verbatim>\<open>MemStorage\<close> of \<^verbatim>\<open>server/storage.ts\<close>)\<close>

text \<open>
  Seven Maps from id to record and one counter. Ids are JavaScript numbers; the counter
  is a natural number here (it starts at 1 and is only ever incremented; a JavaScript
  number counts exactly up to \<open>2\<^sup>5\<^sup>3\<close>, which no run of the store reaches). Every
  \<^verbatim>\<open>new Date()\<close> of the source is an argument of the operation that evaluates it, so the
  clock is free to move between two readings; the source's parameter and variable
  \<^verbatim>\<open>id\<close> is written \<open>id'\<close>. The strict equality \<^verbatim>\<open>===\<close> of the source is
  equality of values; it is exact on \<^verbatim>\<open>undefined\<close>, \<^verbatim>\<open>null\<close>, booleans, numbers and
  strings, which is what the compared properties (ids, session ids, external ids,
  statuses) hold.
\<close>

record store =
  users :: "obj jsmap"
  conversations :: "obj jsmap"
  messages :: "obj jsmap"
  products :: "obj jsmap"
  orders :: "obj jsmap"
  recommendations :: "obj jsmap"
  webhooks :: "obj jsmap"
  currentId :: nat

definition MemStorage :: store where
  "MemStorage = \<lparr> users = [], conversations = [], messages = [], products = [],
     orders = [], recommendations = [], webhooks = [], currentId = 1 \<rparr>"

definition nextId :: "store \<Rightarrow> jsval \<times> store" where
  "nextId s = (JNum (of_nat (currentId s)), s\<lparr>currentId := currentId s + 1\<rparr>)"

subsection \<open>Users\<close>

definition createUser :: "nat \<Rightarrow> obj \<Rightarrow> store \<Rightarrow> obj \<times> store" where
  "createUser now insertUser s =
     (case nextId s of (id', s1) \<Rightarrow>
        let user = insertUser(''id'' \<mapsto> id', ''role'' \<mapsto> JStr ''admin'', ''createdAt'' \<mapsto> JDate now)
        in (user, s1\<lparr>users := Map_set id' user (users s1)\<rparr>))"

subsection \<open>Conversations\<close>

definition getConversation :: "jsval \<Rightarrow> store \<Rightarrow> obj option" where
  "getConversation id' s = Map_get (conversations s) id'"

definition getConversationBySessionId :: "jsval \<Rightarrow> store \<Rightarrow> obj option" where
  "getConversationBySessionId sessionId s =
     find (\<lambda>conv. field conv ''sessionId'' = sessionId) (Map_values (conversations s))"

definition createConversation :: "nat \<Rightarrow> nat \<Rightarrow> obj \<Rightarrow> store \<Rightarrow> obj \<times> store" where
  "createConversation now now' insertConversation s =
     (case nextId s of (id', s1) \<Rightarrow>
        let conversation =
          insertConversation(''id'' \<mapsto> id', ''createdAt'' \<mapsto> JDate now, ''updatedAt'' \<mapsto> JDate now')
        in (conversation, s1\<lparr>conversations := Map_set id' conversation (conversations s1)\<rparr>))"

definition updateConversation :: "nat \<Rightarrow> jsval \<Rightarrow> obj \<Rightarrow> store \<Rightarrow> obj option \<times> store" where
  "updateConversation now id' updates s =
     (case Map_get (conversations s) id' of
        None \<Rightarrow> (None, s)
      | Some conversation \<Rightarrow>
          let updated = (conversation ++ updates)(''updatedAt'' \<mapsto> JDate now)
          in (Some updated, s\<lparr>conversations := Map_set id' updated (conversations s)\<rparr>))"

definition getActiveConversations :: "store \<Rightarrow> obj list" where
  "getActiveConversations s =
     filter (\<lambda>conv. field conv ''status'' = JStr ''active'') (Map_values (conversations s))"

subsection \<open>Messages\<close>

text \<open>
  The comparator of \<^verbatim>\<open>getMessagesByConversation\<close> reads \<^verbatim>\<open>timestamp.getTime()\<close>; every
  stored message has a \<^verbatim>\<open>Date\<close> there, stamped by \<^verbatim>\<open>createMessage\<close> after the spread.
  \<^verbatim>\<open>Array.prototype.sort\<close> is stable, as \<^const>\<open>sort_key\<close> is.
\<close>

definition getTime :: "jsval \<Rightarrow> nat" where
  "getTime v = (case v of JDate t \<Rightarrow> t | _ \<Rightarrow> 0)"

definition getMessagesByConversation :: "jsval \<Rightarrow> store \<Rightarrow> obj list" where
  "getMessagesByConversation conversationId s =
     sort_key (\<lambda>msg. getTime (field msg ''timestamp''))
       (filter (\<lambda>msg. field msg ''conversationId'' = conversationId) (Map_values (messages s)))"

definition createMessage :: "nat \<Rightarrow> obj \<Rightarrow> store \<Rightarrow> obj \<times> store" where
  "createMessage now insertMessage s =
     (case nextId s of (id', s1) \<Rightarrow>
        let message = insertMessage(''id'' \<mapsto> id', ''timestamp'' \<mapsto> JDate now)
        in (message, s1\<lparr>messages := Map_set id' message (messages s1)\<rparr>))"

subsection \<open>Products\<close>

definition getProductByShopifyId :: "jsval \<Rightarrow> store \<Rightarrow> obj option" where
  "getProductByShopifyId shopifyId s =
     find (\<lambda>product. field product ''shopifyId'' = shopifyId) (Map_values (products s))"

definition getActiveProducts :: "store \<Rightarrow> obj list" where
  "getActiveProducts s = filter (\<lambda>product. truthy (field product ''isActive'')) (Map_values (products s))"

definition createProduct :: "nat \<Rightarrow> obj \<Rightarrow> store \<Rightarrow> obj \<times> store" where
  "createProduct now insertProduct s =
     (case nextId s of (id', s1) \<Rightarrow>
        let product = insertProduct(''id'' \<mapsto> id', ''syncedAt'' \<mapsto> JDate now)
        in (product, s1\<lparr>products := Map_set id' product (products s1)\<rparr>))"

definition updateProduct :: "nat \<Rightarrow> jsval \<Rightarrow> obj \<Rightarrow> store \<Rightarrow> obj option \<times> store" where
  "updateProduct now id' updates s =
     (case Map_get (products s) id' of
        None \<Rightarrow> (None, s)
      | Some product \<Rightarrow>
          let updated = (product ++ updates)(''syncedAt'' \<mapsto> JDate now)
          in (Some updated, s\<lparr>products := Map_set id' updated (products s)\<rparr>))"

text \<open>
  \<^verbatim>\<open>syncProducts\<close>: one pass over the drafts; \<open>clock i\<close> is the time at which the \<open>i\<close>-th
  draft is written. The source pushes each result onto the returned array; the model
  conses it in front of the results of the remaining drafts.
\<close>

fun syncProducts :: "(nat \<Rightarrow> nat) \<Rightarrow> obj list \<Rightarrow> store \<Rightarrow> obj list \<times> store" where
  "syncProducts clock [] s = ([], s)"
| "syncProducts clock (insertProduct # rest) s =
     (case getProductByShopifyId (field insertProduct ''shopifyId'') s of
        Some existing \<Rightarrow>
          (case updateProduct (clock 0) (field existing ''id'') insertProduct s of
             (Some updated, s') \<Rightarrow>
               (case syncProducts (\<lambda>i. clock (Suc i)) rest s' of
                  (synced, s'') \<Rightarrow> (updated # synced, s''))
           | (None, s') \<Rightarrow> syncProducts (\<lambda>i. clock (Suc i)) rest s')
      | None \<Rightarrow>
          (case createProduct (clock 0) insertProduct s of
             (created, s') \<Rightarrow>
               (case syncProducts (\<lambda>i. clock (Suc i)) rest s' of
                  (synced, s'') \<Rightarrow> (created # synced, s''))))"

subsection \<open>Orders\<close>

definition createOrder :: "nat \<Rightarrow> nat \<Rightarrow> obj \<Rightarrow> store \<Rightarrow> obj \<times> store" where
  "createOrder now now' insertOrder s =
     (case nextId s of (id', s1) \<Rightarrow>
        let order = insertOrder(''id'' \<mapsto> id', ''createdAt'' \<mapsto> JDate now, ''updatedAt'' \<mapsto> JDate now')
        in (order, s1\<lparr>orders := Map_set id' order (orders s1)\<rparr>))"

definition updateOrder :: "nat \<Rightarrow> jsval \<Rightarrow> obj \<Rightarrow> store \<Rightarrow> obj option \<times> store" where
  "updateOrder now id' updates s =
     (case Map_get (orders s) id' of
        None \<Rightarrow> (None, s)
      | Some order \<Rightarrow>
          let updated = (order ++ updates)(''updatedAt'' \<mapsto> JDate now)
          in (Some updated, s\<lparr>orders := Map_set id' updated (orders s)\<rparr>))"

subsection \<open>Recommendations\<close>

definition createRecommendation :: "nat \<Rightarrow> obj \<Rightarrow> store \<Rightarrow> obj \<times> store" where
  "createRecommendation now insertRecommendation s =
     (case nextId s of (id', s1) \<Rightarrow>
        let recommendation = insertRecommendation(''id'' \<mapsto> id', ''createdAt'' \<mapsto> JDate now)
        in (recommendation,
            s1\<lparr>recommendations := Map_set id' recommendation (recommendations s1)\<rparr>))"

definition updateRecommendation :: "jsval \<Rightarrow> obj \<Rightarrow> store \<Rightarrow> obj option \<times> store" where
  "updateRecommendation id' updates s =
     (case Map_get (recommendations s) id' of
        None \<Rightarrow> (None, s)
      | Some recommendation \<Rightarrow>
          let updated = recommendation ++ updates
          in (Some updated, s\<lparr>recommendations := Map_set id' updated (recommendations s)\<rparr>))"

subsection \<open>Webhook subscriptions\<close>

definition getActiveWebhooks :: "store \<Rightarrow> obj list" where
  "getActiveWebhooks s = filter (\<lambda>webhook. truthy (field webhook ''isActive'')) (Map_values (webhooks s))"

definition createWebhook :: "nat \<Rightarrow> obj \<Rightarrow> store \<Rightarrow> obj \<times> store" where
  "createWebhook now insertWebhook s =
     (case nextId s of (id', s1) \<Rightarrow>
        let webhook = insertWebhook(''id'' \<mapsto> id', ''createdAt'' \<mapsto> JDate now)
        in (webhook, s1\<lparr>webhooks := Map_set id' webhook (webhooks s1)\<rparr>))"

definition updateWebhook :: "jsval \<Rightarrow> obj \<Rightarrow> store \<Rightarrow> obj option \<times> store" where
  "updateWebhook id' updates s =
     (case Map_get (webhooks s) id' of
        None \<Rightarrow> (None, s)
      | Some webhook \<Rightarrow>
          let updated = webhook ++ updates
          in (Some updated, s\<lparr>webhooks := Map_set id' updated (webhooks s)\<rparr>))"

definition deleteWebhook :: "jsval \<Rightarrow> store \<Rightarrow> bool \<times> store" where
  "deleteWebhook id' s =
     (Map_get (webhooks s) id' \<noteq> None, s\<lparr>webhooks := Map_delete id' (webhooks s)\<rparr>)"

subsection \<open>Derived queries\<close>

text \<open>
  \<^verbatim>\<open>getTopRecommendedProducts\<close>. The statistics of a product id are the pair
  (recommendations, accepted). \<^verbatim>\<open>Array.prototype.slice(0, limit)\<close> counts a negative end
  from the back.
\<close>

definition productStats :: "store \<Rightarrow> (nat \<times> nat) jsmap" where
  "productStats s =
     foldl (\<lambda>productStats rec.
        let stats = (case Map_get productStats (field rec ''productId'') of
                       Some st \<Rightarrow> st | None \<Rightarrow> (0, 0));
            stats1 = (fst stats + 1, snd stats);
            stats2 = (if truthy (field rec ''accepted'') then (fst stats1, snd stats1 + 1) else stats1)
        in Map_set (field rec ''productId'') stats2 productStats)
       [] (Map_values (recommendations s))"

record topProduct =
  tp_product :: obj
  tp_recommendations :: nat
  tp_successRate :: rat

definition slice0 :: "'a list \<Rightarrow> int \<Rightarrow> 'a list" where
  "slice0 xs end' = (if end' < 0 then take (length xs - nat (- end')) xs else take (nat end') xs)"

definition joinProduct :: "store \<Rightarrow> jsval \<times> nat \<times> nat \<Rightarrow> topProduct list" where
  "joinProduct s entry =
     (case entry of (productId, stats) \<Rightarrow>
        (case Map_get (products s) productId of
           Some product \<Rightarrow>
             [\<lparr> tp_product = product, tp_recommendations = fst stats,
                tp_successRate = (if fst stats > 0 then of_nat (snd stats) / of_nat (fst stats) else 0) \<rparr>]
         | None \<Rightarrow> []))"

definition getTopRecommendedProducts :: "int \<Rightarrow> store \<Rightarrow> topProduct list" where
  "getTopRecommendedProducts limit s =
     (let results = concat (map (joinProduct s) (productStats s))
      in slice0 (sort_key (\<lambda>r. - int (tp_recommendations r)) results) limit)"

text \<open>
  \<^verbatim>\<open>getMetrics\<close>. \<^verbatim>\<open>Number(order.totalAmount)\<close> is the parameter \<open>toNumber\<close>; the size of
  \<^verbatim>\<open>new Set(orders.map(order => order.conversationId))\<close> is the number of distinct values
  of that property, \<^verbatim>\<open>undefined\<close> and \<^verbatim>\<open>null\<close> included.
\<close>

record metrics =
  activeConversations :: nat
  totalConversations :: nat
  conversionRate :: rat
  totalRevenue :: rat
  averageOrderValue :: rat
  totalOrders :: nat

definition getMetrics :: "(jsval \<Rightarrow> rat) \<Rightarrow> store \<Rightarrow> metrics" where
  "getMetrics toNumber s =
     (let activeCount = length (filter (\<lambda>conv. field conv ''status'' = JStr ''active'')
                                  (Map_values (conversations s)));
          total = length (conversations s);
          orderList = Map_values (orders s);
          completedOrders = filter (\<lambda>order. field order ''status'' = JStr ''completed'') orderList;
          revenue = foldl (\<lambda>sum order. sum + toNumber (field order ''totalAmount'')) 0 completedOrders;
          average = (if length completedOrders > 0
                     then revenue / of_nat (length completedOrders) else 0);
          conversationsWithOrders =
            length (remdups (map (\<lambda>order. field order ''conversationId'') orderList));
          rate = (if total > 0 then of_nat conversationsWithOrders / of_nat total else 0)
      in \<lparr> activeConversations = activeCount, totalConversations = total,
           conversionRate = rate, totalRevenue = revenue,
           averageOrderValue = average, totalOrders = length orderList \<rparr>)"

subsection \<open>The mutating operations as one step function\<close>

datatype operation =
    CreateUser nat obj
  | CreateConversation nat nat obj
  | UpdateConversation nat jsval obj
  | CreateMessage nat obj
  | CreateProduct nat obj
  | UpdateProduct nat jsval obj
  | SyncProducts "nat \<Rightarrow> nat" "obj list"
  | CreateOrder nat nat obj
  | UpdateOrder nat jsval obj
  | CreateRecommendation nat obj
  | UpdateRecommendation jsval obj
  | CreateWebhook nat obj
  | UpdateWebhook jsval obj
  | DeleteWebhook jsval

datatype outcome =
    Created obj
  | Updated "obj option"
  | Synced "obj list"
  | Deleted bool

fun perform :: "operation \<Rightarrow> store \<Rightarrow> outcome \<times> store" where
  "perform (CreateUser now d) s = map_prod Created (\<lambda>s'. s') (createUser now d s)"
| "perform (CreateConversation now now' d) s = map_prod Created (\<lambda>s'. s') (createConversation now now' d s)"
| "perform (UpdateConversation now id' u) s = map_prod Updated (\<lambda>s'. s') (updateConversation now id' u s)"
| "perform (CreateMessage now d) s = map_prod Created (\<lambda>s'. s') (createMessage now d s)"
| "perform (CreateProduct now d) s = map_prod Created (\<lambda>s'. s') (createProduct now d s)"
| "perform (UpdateProduct now id' u) s = map_prod Updated (\<lambda>s'. s') (updateProduct now id' u s)"
| "perform (SyncProducts clock ds) s = map_prod Synced (\<lambda>s'. s') (syncProducts clock ds s)"
| "perform (CreateOrder now now' d) s = map_prod Created (\<lambda>s'. s') (createOrder now now' d s)"
| "perform (UpdateOrder now id' u) s = map_prod Updated (\<lambda>s'. s') (updateOrder now id' u s)"
| "perform (CreateRecommendation now d) s = map_prod Created (\<lambda>s'. s') (createRecommendation now d s)"
| "perform (UpdateRecommendation id' u) s = map_prod Updated (\<lambda>s'. s') (updateRecommendation id' u s)"
| "perform (CreateWebhook now d) s = map_prod Created (\<lambda>s'. s') (createWebhook now d s)"
| "perform (UpdateWebhook id' u) s = map_prod Updated (\<lambda>s'. s') (updateWebhook id' u s)"
| "perform (DeleteWebhook id') s = map_prod Deleted (\<lambda>s'. s') (deleteWebhook id' s)"

fun performAll :: "operation list \<Rightarrow> store \<Rightarrow> store" where
  "performAll [] s = s"
| "performAll (x # xs) s = performAll xs (snd (perform x s))"

fun isCreate :: "operation \<Rightarrow> bool" where
  "isCreate (CreateUser now d) = True"
| "isCreate (CreateConversation now now' d) = True"
| "isCreate (CreateMessage now d) = True"
| "isCreate (CreateProduct now d) = True"
| "isCreate (CreateOrder now now' d) = True"
| "isCreate (CreateRecommendation now d) = True"
| "isCreate (CreateWebhook now d) = True"
| "isCreate _ = False"

text \<open>The \<^verbatim>\<open>id\<close> property of the record an operation returned.\<close>

fun returnedId :: "outcome \<Rightarrow> jsval" where
  "returnedId (Created r) = field r ''id''"
| "returnedId _ = JUndefined"

inductive reachable :: "store \<Rightarrow> bool" where
  init: "reachable MemStorage"
| step: "reachable s \<Longrightarrow> reachable (snd (perform x s))"

text \<open>All the keys of the seven Maps of a store.\<close>

definition allKeys :: "store \<Rightarrow> jsval set" where
  "allKeys s = set (Map_keys (users s)) \<union> set (Map_keys (conversations s))
     \<union> set (Map_keys (messages s)) \<union> set (Map_keys (products s))
     \<union> set (Map_keys (orders s)) \<union> set (Map_keys (recommendations s))
     \<union> set (Map_keys (webhooks s))"

text \<open>Every key is a number handed out by the counter before its present value.\<close>

definition idsBelow :: "store \<Rightarrow> bool" where
  "idsBelow s = (\<forall>k \<in> allKeys s. k \<in> (\<lambda>i. JNum (of_nat i)) ` {0..<currentId s})"

subsection \<open>Referential integrity of messages\<close>







subsection \<open>Two small stores for the recommendation ranking\<close>

text \<open>
  \<open>orphanStore\<close>: two recommendations whose products (ids 5 and 6) were never stored.
  \<open>mixedStore\<close>: one stored product (id 1) recommended twice, once accepted, and an unknown
  product id 9 recommended three times.
\<close>

definition orphanStore :: store where
  "orphanStore = performAll
     [CreateRecommendation 0 [''conversationId'' \<mapsto> JNum 1, ''productId'' \<mapsto> JNum 5],
      CreateRecommendation 0 [''conversationId'' \<mapsto> JNum 1, ''productId'' \<mapsto> JNum 6]] MemStorage"

definition mixedStore :: store where
  "mixedStore = performAll
     [CreateProduct 0 [''title'' \<mapsto> JStr ''Lamp'', ''price'' \<mapsto> JStr ''19.99''],
      CreateRecommendation 1 [''productId'' \<mapsto> JNum 9],
      CreateRecommendation 2 [''productId'' \<mapsto> JNum 1, ''accepted'' \<mapsto> JBool True],
      CreateRecommendation 3 [''productId'' \<mapsto> JNum 9],
      CreateRecommendation 4 [''productId'' \<mapsto> JNum 1],
      CreateRecommendation 5 [''productId'' \<mapsto> JNum 9]] MemStorage"

subsection \<open>A store with an order that belongs to no conversation\<close>

text \<open>
  One conversation, and one order created from a draft without \<^verbatim>\<open>conversationId\<close>
  (the column is nullable in \<^verbatim>\<open>shared/schema.ts\<close>).
\<close>

definition unattributedStore :: store where
  "unattributedStore = performAll
     [CreateConversation 0 0 [''sessionId'' \<mapsto> JStr ''s1'', ''status'' \<mapsto> JStr ''active''],
      CreateOrder 1 1 [''status'' \<mapsto> JStr ''pending'', ''totalAmount'' \<mapsto> JStr ''10.00'']] MemStorage"

section \<open>Webhook dispatcher (\<^verbatim>\<open>WebhookService.triggerWebhook\<close>, \<^verbatim>\<open>triggerOrderCreated\<close>)\<close>

text \<open>
  The service receives subscriptions under the static type \<^verbatim>\<open>Webhook\<close> of
  \<^verbatim>\<open>shared/schema.ts\<close>: a string url, a string secret, a nullable boolean
  \<^verbatim>\<open>isActive\<close>, and \<^verbatim>\<open>events\<close> of type \<^verbatim>\<open>unknown\<close> (a JSON column), which the code
  tests with \<^verbatim>\<open>Array.isArray\<close> before \<^verbatim>\<open>includes\<close>. The source's property \<^verbatim>\<open>id\<close> is
  \<open>webhookId\<close>.
\<close>

record Webhook =
  webhookId :: int
  url :: string
  events :: jsval
  secret :: string
  isActive :: "bool option"

definition isArray :: "jsval \<Rightarrow> bool" where
  "isArray v = (case v of JArr xs \<Rightarrow> True | _ \<Rightarrow> False)"

definition includes' :: "jsval \<Rightarrow> jsval \<Rightarrow> bool" where
  "includes' v x = (case v of JArr xs \<Rightarrow> x \<in> set xs | _ \<Rightarrow> False)"

text \<open>Reading a property of an object value (the payload is an object literal).\<close>

definition member :: "jsval \<Rightarrow> string \<Rightarrow> jsval" where
  "member v k =
     (case v of
        JObj kvs \<Rightarrow> (case map_of kvs k of Some x \<Rightarrow> x | None \<Rightarrow> JUndefined)
      | _ \<Rightarrow> JUndefined)"

text \<open>
  The network is the environment: \<^verbatim>\<open>axios.post\<close> is a parameter that takes the state of
  the world and a request, and answers with a status or rejects (timeout, transport
  error, or a status its \<^verbatim>\<open>validateStatus\<close> refuses), leaving a new state of the world.
  The effects of the service are the requests it issues and the lines it logs. The
  deliveries of one batch are started in list order by \<^verbatim>\<open>map\<close>, so the requests form a
  list in that order. The deliveries then run concurrently, and each writes its line when
  its own request settles: the order of the lines of a batch is not determined by the
  program, and the console is a bag of lines, not a sequence.
\<close>

record httpRequest =
  rq_url :: string
  rq_data :: jsval
  rq_headers :: "(string \<times> jsval) list"
  rq_timeout :: nat

datatype logLine =
    LogTriggered int jsval
  | LogFailedStatus int int
  | LogError int error

record 'w io =
  world :: 'w
  requests :: "httpRequest list"
  console :: "logLine multiset"

type_synonym 'w axios = "'w \<Rightarrow> httpRequest \<Rightarrow> (error + int) \<times> 'w"

text \<open>The arguments \<^verbatim>\<open>triggerWebhook\<close> passes to \<^verbatim>\<open>axios.post\<close>.\<close>

definition deliveryRequest :: "hmac_fn \<Rightarrow> (jsval \<Rightarrow> string) \<Rightarrow> jsval \<Rightarrow> Webhook \<Rightarrow> httpRequest" where
  "deliveryRequest hmac stringify payload webhook =
     (let payloadString = stringify payload;
          signature = generateSignature hmac payloadString (secret webhook)
      in \<lparr> rq_url = url webhook, rq_data = payload,
           rq_headers = [(''Content-Type'', JStr ''application/json''),
                         (''X-Webhook-Signature'', JStr signature),
                         (''X-Webhook-Event'', member payload ''event''),
                         (''User-Agent'', JStr ''SalesBot-AI-Webhook/1.0'')],
           rq_timeout = 30000 \<rparr>)"

definition triggerWebhook ::
  "'w axios \<Rightarrow> hmac_fn \<Rightarrow> (jsval \<Rightarrow> string) \<Rightarrow> Webhook \<Rightarrow> jsval \<Rightarrow> 'w io \<Rightarrow> bool \<times> 'w io" where
  "triggerWebhook post hmac stringify webhook payload io =
     (let request = deliveryRequest hmac stringify payload webhook
      in case post (world io) request of
           (response, w') \<Rightarrow>
             (let io1 = io\<lparr>world := w', requests := requests io @ [request]\<rparr>
              in case response of
                   Inr status \<Rightarrow>
                     if 200 \<le> status \<and> status < 300
                     then (True, io1\<lparr>console := add_mset
                              (LogTriggered (webhookId webhook) (member payload ''event''))
                              (console io1)\<rparr>)
                     else (False, io1\<lparr>console := add_mset
                              (LogFailedStatus (webhookId webhook) status) (console io1)\<rparr>)
                 | Inl err \<Rightarrow>
                     (False, io1\<lparr>console := add_mset
                              (LogError (webhookId webhook) err) (console io1)\<rparr>)))"

text \<open>
  \<^verbatim>\<open>Promise.all(relevantWebhooks.map(webhook => this.triggerWebhook(webhook, payload)))\<close>:
  the array of verdicts, in the order of the targets, and the effects of the batch. The
  recursion visits the targets in list order; of the effects only the list of requests
  keeps an order, which is the order in which \<^verbatim>\<open>map\<close> issues them.
\<close>

fun triggerAll ::
  "'w axios \<Rightarrow> hmac_fn \<Rightarrow> (jsval \<Rightarrow> string) \<Rightarrow> Webhook list \<Rightarrow> jsval \<Rightarrow> 'w io \<Rightarrow> bool list \<times> 'w io" where
  "triggerAll post hmac stringify [] payload io = ([], io)"
| "triggerAll post hmac stringify (webhook # rest) payload io =
     (case triggerWebhook post hmac stringify webhook payload io of
        (ok, io') \<Rightarrow>
          (case triggerAll post hmac stringify rest payload io' of
             (oks, io'') \<Rightarrow> (ok # oks, io'')))"

definition orderCreatedPayload :: "string \<Rightarrow> obj \<Rightarrow> jsval" where
  "orderCreatedPayload timestamp order =
     JObj [(''event'', JStr ''order.created''),
           (''timestamp'', JStr timestamp),
           (''data'', JObj [(''orderId'', field order ''id''),
                            (''shopifyId'', field order ''shopifyId''),
                            (''customerId'', field order ''customerId''),
                            (''customerEmail'', field order ''customerEmail''),
                            (''totalAmount'', field order ''totalAmount''),
                            (''currency'', field order ''currency''),
                            (''source'', field order ''source''),
                            (''lineItems'', field order ''lineItems'')]),
           (''conversationId'', js_or (field order ''conversationId'') JUndefined),
           (''customerId'', js_or (field order ''customerId'') JUndefined)]"

definition triggerOrderCreated ::
  "'w axios \<Rightarrow> hmac_fn \<Rightarrow> (jsval \<Rightarrow> string) \<Rightarrow> string \<Rightarrow> obj \<Rightarrow> Webhook list \<Rightarrow> 'w io \<Rightarrow> 'w io" where
  "triggerOrderCreated post hmac stringify timestamp order webhookList io =
     (let payload = orderCreatedPayload timestamp order;
          relevantWebhooks = filter (\<lambda>webhook.
             isActive webhook = Some True
             \<and> isArray (events webhook)
             \<and> includes' (events webhook) (JStr ''order.created'')) webhookList
      in snd (triggerAll post hmac stringify relevantWebhooks payload io))"

text \<open>
  What the environment answers to the requests of a batch, request by request, and
  whether an answer counts as a delivery.
\<close>

fun responses :: "'w axios \<Rightarrow> 'w \<Rightarrow> httpRequest list \<Rightarrow> (error + int) list" where
  "responses post w [] = []"
| "responses post w (r # rs) = (case post w r of (a, w') \<Rightarrow> a # responses post w' rs)"

definition succeeded :: "error + int \<Rightarrow> bool" where
  "succeeded a = (case a of Inr status \<Rightarrow> 200 \<le> status \<and> status < 300 | Inl err \<Rightarrow> False)"

definition logFor :: "jsval \<Rightarrow> Webhook \<Rightarrow> error + int \<Rightarrow> logLine" where
  "logFor payload webhook a =
     (case a of
        Inr status \<Rightarrow> if 200 \<le> status \<and> status < 300
                      then LogTriggered (webhookId webhook) (member payload ''event'')
                      else LogFailedStatus (webhookId webhook) status
      | Inl err \<Rightarrow> LogError (webhookId webhook) err)"

text \<open>
  A network for illustration: the second target times out, the third answers 503, every
  other target answers 200.
\<close>

definition flakyPost :: "unit axios" where
  "flakyPost w request =
     (if rq_url request = ''https://b.example/hook''
      then (Inl (NetworkError ''timeout of 30000ms exceeded''), w)
      else if rq_url request = ''https://c.example/hook'' then (Inr 503, w)
      else (Inr 200, w))"

definition hook :: "int \<Rightarrow> string \<Rightarrow> Webhook" where
  "hook n target = \<lparr> webhookId = n, url = target, events = JArr [JStr ''order.created''],
     secret = ''k'', isActive = Some True \<rparr>"

definition emptyIo :: "unit io" where
  "emptyIo = \<lparr> world = (), requests = [], console = {#} \<rparr>"

section \<open>The inbound webhook endpoint (\<^verbatim>\<open>POST /api/webhook/chat\<close>)\<close>

text \<open>
  The handler of \<^verbatim>\<open>registerRoutes\<close>. A header that is absent reads as \<^verbatim>\<open>undefined\<close>
  (\<open>None\<close>); \<^verbatim>\<open>JSON.stringify\<close> and the assistant (\<^verbatim>\<open>openaiService.processMessage\<close>, which
  may throw) are parameters; \<open>clock\<close> gives the four readings of the clock. The whole body
  of the handler is inside one \<^verbatim>\<open>try\<close>, whose \<^verbatim>\<open>catch\<close> answers 500 with the error's
  message; the store keeps what was written before the exception.
  \<^verbatim>\<open>JSON.stringify(undefined)\<close> is \<^verbatim>\<open>undefined\<close>, which the hash refuses with a
  \<^verbatim>\<open>TypeError\<close>, and destructuring \<^verbatim>\<open>null\<close> throws a \<^verbatim>\<open>TypeError\<close>.
  \<^verbatim>\<open>recordApiMetric\<close> only writes a line to the console. The source's \<^verbatim>\<open>secret\<close> is
  written \<open>secret'\<close>.
\<close>

record chatRequest =
  signatureHeader :: "string option"
  secretHeader :: "string option"
  reqBody :: jsval

record chatResponse =
  statusCode :: nat
  jsonBody :: jsval

type_synonym assistant = "jsval \<Rightarrow> obj \<Rightarrow> obj list \<Rightarrow> jsval \<Rightarrow> obj list \<Rightarrow> error + obj"

fun errorMessage :: "error \<Rightarrow> string" where
  "errorMessage RangeError = ''Input buffers must have the same byte length''"
| "errorMessage TypeError = ''TypeError''"
| "errorMessage (NetworkError m) = m"
| "errorMessage (UpstreamError m) = m"

definition reply :: "nat \<Rightarrow> string \<Rightarrow> chatResponse" where
  "reply code msg = \<lparr> statusCode = code, jsonBody = JObj [(''error'', JStr msg)] \<rparr>"

definition chatProcessing ::
  "assistant \<Rightarrow> (nat \<Rightarrow> nat) \<Rightarrow> jsval \<Rightarrow> jsval \<Rightarrow> jsval \<Rightarrow> jsval \<Rightarrow> store \<Rightarrow> chatResponse \<times> store" where
  "chatProcessing processMessage clock customer_id message context session_id s =
     (case (case getConversationBySessionId session_id s of
              Some found \<Rightarrow> (found, s)
            | None \<Rightarrow> createConversation (clock 0) (clock 1)
                [''sessionId'' \<mapsto> session_id, ''customerId'' \<mapsto> customer_id,
                 ''status'' \<mapsto> JStr ''active'', ''lastMessage'' \<mapsto> message,
                 ''context'' \<mapsto> context] s) of
        (conversation, s1) \<Rightarrow>
          (case createMessage (clock 2)
                  [''conversationId'' \<mapsto> field conversation ''id'', ''role'' \<mapsto> JStr ''user'',
                   ''content'' \<mapsto> message] s1 of
             (userMessage, s2) \<Rightarrow>
               (let messageList = getMessagesByConversation (field conversation ''id'') s2;
                    availableProducts = getActiveProducts s2
                in case processMessage message conversation messageList context availableProducts of
                     Inl err \<Rightarrow> (reply 500 (errorMessage err), s2)
                   | Inr aiResponse \<Rightarrow>
                       (case createMessage (clock 3)
                               [''conversationId'' \<mapsto> field conversation ''id'',
                                ''role'' \<mapsto> JStr ''assistant'',
                                ''content'' \<mapsto> field aiResponse ''message'',
                                ''metadata'' \<mapsto> JObj
                                   [(''intent'', field aiResponse ''intent''),
                                    (''urgency'', field aiResponse ''urgency''),
                                    (''recommendations'', field aiResponse ''recommendations'')]] s2 of
                          (assistantMessage, s3) \<Rightarrow>
                            (\<lparr> statusCode = 200,
                               jsonBody = JObj
                                 [(''response'', field aiResponse ''message''),
                                  (''recommendations'', field aiResponse ''recommendations''),
                                  (''session_id'', session_id),
                                  (''conversation_id'', field conversation ''id'')] \<rparr>, s3)))))"

definition webhookChat ::
  "hmac_fn \<Rightarrow> (jsval \<Rightarrow> string) \<Rightarrow> assistant \<Rightarrow> (nat \<Rightarrow> nat) \<Rightarrow> chatRequest \<Rightarrow> store
     \<Rightarrow> chatResponse \<times> store" where
  "webhookChat hmac stringify processMessage clock req s =
     (case (signatureHeader req, secretHeader req) of
        (Some signature, Some secret') \<Rightarrow>
          if signature = [] \<or> secret' = []
          then (reply 401 ''Missing webhook signature or secret'', s)
          else if reqBody req = JUndefined
          then (reply 500 (errorMessage TypeError), s)
          else (case verifyIncomingWebhook hmac (stringify (reqBody req)) signature secret' of
                  Inl err \<Rightarrow> (reply 500 (errorMessage err), s)
                | Inr isValid \<Rightarrow>
                    if \<not> isValid
                    then (reply 401 ''Invalid webhook signature'', s)
                    else if reqBody req = JNull
                    then (reply 500 (errorMessage TypeError), s)
                    else (let customer_id = member (reqBody req) ''customer_id'';
                              message = member (reqBody req) ''message'';
                              context = member (reqBody req) ''context'';
                              session_id = member (reqBody req) ''session_id''
                          in if \<not> truthy message \<or> \<not> truthy session_id
                             then (reply 400 ''Missing required fields: message, session_id'', s)
                             else chatProcessing processMessage clock customer_id message context
                                    session_id s))
      | _ \<Rightarrow> (reply 401 ''Missing webhook signature or secret'', s))"

definition shortTagRequest :: chatRequest where
  "shortTagRequest = \<lparr> signatureHeader = Some ''abc'', secretHeader = Some ''k'',
     reqBody = JObj [(''message'', JStr ''hi''), (''session_id'', JStr ''s1'')] \<rparr>"

text \<open>
  Stand-ins for the three parameters, for evaluating the handler on a concrete request: a
  hash that returns 32 zero bytes, a serializer that returns \<^verbatim>\<open>{}\<close>, an assistant that
  is down.
\<close>

definition zeroHmac :: hmac_fn where
  "zeroHmac key msg = replicate 32 0"

definition constStringify :: "jsval \<Rightarrow> string" where
  "constStringify v = ''{}''"

definition assistantDown :: assistant where
  "assistantDown message conversation messageList context availableProducts
     = Inl (UpstreamError ''Failed to process message'')"

section \<open>Product synchronisation: the notions of the idempotence proof\<close>

text \<open>
  \<open>syncStep\<close> is the body of the loop of \<^verbatim>\<open>syncProducts\<close>. On the products Map alone,
  \<open>target\<close> is the entry the lookup by external id finds, \<open>stepP\<close> and \<open>stepN\<close> are what one
  step does to the Map and to the counter, and \<open>runP\<close> is the whole pass. \<open>wfP\<close> is the
  shape of the products Map under which a pass is analysed: distinct keys, every record's
  \<^verbatim>\<open>id\<close> property equal to its key, every key a number below the counter. A draft
  is a value of type \<^verbatim>\<open>InsertProduct\<close>, which has no \<^verbatim>\<open>id\<close>; it carries an external id
  when \<^verbatim>\<open>shopifyId\<close> is a string. \<open>eraseAll\<close> forgets the synced timestamps.
\<close>

definition target :: "obj jsmap \<Rightarrow> jsval \<Rightarrow> (jsval \<times> obj) option" where
  "target ps x = find (\<lambda>(k, p). field p ''shopifyId'' = x) ps"

definition stepP :: "nat \<Rightarrow> obj \<Rightarrow> nat \<Rightarrow> obj jsmap \<Rightarrow> obj jsmap" where
  "stepP t d n ps =
     (case target ps (field d ''shopifyId'') of
        Some (k, p) \<Rightarrow> AList.update k ((p ++ d)(''syncedAt'' \<mapsto> JDate t)) ps
      | None \<Rightarrow> ps @ [(JNum (of_nat n), d(''id'' \<mapsto> JNum (of_nat n), ''syncedAt'' \<mapsto> JDate t))])"

definition stepN :: "obj \<Rightarrow> nat \<Rightarrow> obj jsmap \<Rightarrow> nat" where
  "stepN d n ps = (case target ps (field d ''shopifyId'') of Some e \<Rightarrow> n | None \<Rightarrow> n + 1)"

fun runP :: "(nat \<Rightarrow> nat) \<Rightarrow> obj list \<Rightarrow> nat \<Rightarrow> obj jsmap \<Rightarrow> nat \<times> obj jsmap" where
  "runP c [] n ps = (n, ps)"
| "runP c (d # ds) n ps = runP (\<lambda>i. c (Suc i)) ds (stepN d n ps) (stepP (c 0) d n ps)"

definition wfP :: "nat \<Rightarrow> obj jsmap \<Rightarrow> bool" where
  "wfP n ps = (distinct (map fst ps) \<and> (\<forall>(k, p) \<in> set ps. field p ''id'' = k)
     \<and> (\<forall>k \<in> fst ` set ps. k \<in> (\<lambda>i. JNum (of_nat i)) ` {0..<n}))"

definition keyIds :: "obj jsmap \<Rightarrow> (jsval \<times> jsval) list" where
  "keyIds ps = map (\<lambda>e. (fst e, field (snd e) ''shopifyId'')) ps"

definition draftOk :: "obj \<Rightarrow> bool" where
  "draftOk d = (d ''id'' = None
     \<and> (case d ''shopifyId'' of Some (JStr x) \<Rightarrow> True | _ \<Rightarrow> False))"

definition productsOk :: "store \<Rightarrow> bool" where
  "productsOk s = wfP (currentId s) (products s)"

definition syncStep :: "nat \<Rightarrow> obj \<Rightarrow> store \<Rightarrow> store" where
  "syncStep t d s =
     (case getProductByShopifyId (field d ''shopifyId'') s of
        Some existing \<Rightarrow> snd (updateProduct t (field existing ''id'') d s)
      | None \<Rightarrow> snd (createProduct t d s))"

text \<open>The key a draft is written to by a step.\<close>

definition writtenKey :: "obj \<Rightarrow> nat \<Rightarrow> obj jsmap \<Rightarrow> jsval" where
  "writtenKey d n ps = (case target ps (field d ''shopifyId'') of Some (k, p) \<Rightarrow> k | None \<Rightarrow> JNum (of_nat n))"

definition written :: "nat \<Rightarrow> obj \<Rightarrow> jsval \<Rightarrow> obj option \<Rightarrow> obj" where
  "written t d k po =
     (case po of Some p \<Rightarrow> (p ++ d)(''syncedAt'' \<mapsto> JDate t)
               | None \<Rightarrow> d(''id'' \<mapsto> k, ''syncedAt'' \<mapsto> JDate t))"

definition eraseAll :: "obj jsmap \<Rightarrow> obj jsmap" where
  "eraseAll ps = map (\<lambda>e. (fst e, (snd e)(''syncedAt'' := None))) ps"

definition agree :: "obj jsmap \<Rightarrow> obj jsmap \<Rightarrow> obj jsmap \<Rightarrow> bool" where
  "agree A B S = (\<forall>k pb ps f. map_of B k = Some pb \<longrightarrow> map_of S k = Some ps \<longrightarrow> f \<noteq> ''syncedAt''
      \<longrightarrow> pb f = ps f \<or> (\<exists>pa. map_of A k = Some pa \<and> pb f = pa f))"

definition lampDraft :: obj where
  "lampDraft = [''shopifyId'' \<mapsto> JStr ''1001'', ''title'' \<mapsto> JStr ''Lamp'', ''price'' \<mapsto> JStr ''19.99'']"

definition lampSale :: obj where
  "lampSale = [''shopifyId'' \<mapsto> JStr ''1001'', ''price'' \<mapsto> JStr ''14.99'', ''category'' \<mapsto> JNull]"

definition deskDraft :: obj where
  "deskDraft = [''shopifyId'' \<mapsto> JStr ''1002'', ''title'' \<mapsto> JStr ''Desk'', ''price'' \<mapsto> JStr ''120.00'']"

fun keepsIds :: "operation \<Rightarrow> bool" where
  "keepsIds (UpdateProduct now k u) = (u ''id'' = None)"
| "keepsIds (SyncProducts clock ds) = list_all draftOk ds"
| "keepsIds x = True"

section \<open>Stores and drafts for the examples\<close>

text \<open>
  \<open>populatedStore\<close>: a conversation, a message, a product and a subscription, with ids 1
  to 4.
\<close>

definition populatedStore :: store where
  "populatedStore = performAll
     [CreateConversation 0 0 [''sessionId'' \<mapsto> JStr ''s1'', ''status'' \<mapsto> JStr ''active''],
      CreateMessage 1 [''conversationId'' \<mapsto> JNum 1, ''role'' \<mapsto> JStr ''user'', ''content'' \<mapsto> JStr ''hello''],
      CreateProduct 2 [''shopifyId'' \<mapsto> JStr ''1002'', ''title'' \<mapsto> JStr ''Desk'', ''price'' \<mapsto> JStr ''99.00''],
      CreateWebhook 3 [''url'' \<mapsto> JStr ''https://a.example/hook'', ''isActive'' \<mapsto> JBool True]]
     MemStorage"

definition orderDraft :: obj where
  "orderDraft = [''conversationId'' \<mapsto> JNum 1, ''status'' \<mapsto> JStr ''pending'', ''totalAmount'' \<mapsto> JStr ''10.00'']"

definition userDraft :: obj where
  "userDraft = [''username'' \<mapsto> JStr ''ops'', ''password'' \<mapsto> JStr ''x'']"

text \<open>
  \<open>overwrittenStore\<close>: two products, after which \<^verbatim>\<open>updateProduct(1, { id: 2 })\<close> has
  overwritten the \<^verbatim>\<open>id\<close> property of the first (the parameter type
  \<^verbatim>\<open>Partial<Product>\<close> admits it). \<open>stockedStore\<close>: a conversation and one product with
  external id 1002.
\<close>

definition overwrittenStore :: store where
  "overwrittenStore = performAll
     [CreateProduct 0 [''shopifyId'' \<mapsto> JStr ''A'', ''title'' \<mapsto> JStr ''Chair''],
      CreateProduct 1 [''shopifyId'' \<mapsto> JStr ''B'', ''title'' \<mapsto> JStr ''Table''],
      UpdateProduct 2 (JNum 1) [''id'' \<mapsto> JNum 2]] MemStorage"

definition tableDraft :: obj where
  "tableDraft = [''shopifyId'' \<mapsto> JStr ''B'', ''title'' \<mapsto> JStr ''Big table'']"

definition chairDraft :: obj where
  "chairDraft = [''shopifyId'' \<mapsto> JStr ''A'', ''title'' \<mapsto> JStr ''Soft chair'']"

definition stockedStore :: store where
  "stockedStore = performAll
     [CreateConversation 0 0 [''sessionId'' \<mapsto> JStr ''s1'', ''status'' \<mapsto> JStr ''active''],
      CreateProduct 1 [''shopifyId'' \<mapsto> JStr ''1002'', ''title'' \<mapsto> JStr ''Old desk'',
                       ''price'' \<mapsto> JStr ''99.00'', ''category'' \<mapsto> JStr ''Furniture'']]
     MemStorage"

section \<open>The signature codec: round trip and length mismatch\<close>

lemma hex_digit_lower:
  assumes "unat n < 16"
  shows "hex_digit n \<in> set ''0123456789abcdef''"
  unfolding hex_digit_def using assms by (intro nth_mem) simp

lemma unat_high_nibble: "unat (drop_bit 4 (b :: byte)) < 16"
proof -
  have "unat b < 256" using unsigned_less [of b] by simp
  then show ?thesis by (simp add: drop_bit_eq_div unat_div)
qed

lemma unat_low_nibble: "unat ((b :: byte) AND 0x0F) < 16"
proof -
  have "b AND 0x0F \<le> 0x0F" by (rule word_and_le1)
  then show ?thesis by (simp add: word_le_nat_alt)
qed

lemma digest_hex_lower: "set (digest_hex bs) \<subseteq> set ''0123456789abcdef''"
proof (induction bs)
  case Nil
  then show ?case by (simp add: digest_hex_def)
next
  case (Cons b bs)
  have "hex_digit (drop_bit 4 b) \<in> set ''0123456789abcdef''"
    by (rule hex_digit_lower [OF unat_high_nibble])
  moreover have "hex_digit (b AND 0x0F) \<in> set ''0123456789abcdef''"
    by (rule hex_digit_lower [OF unat_low_nibble])
  ultimately show ?case using Cons.IH by (simp add: digest_hex_def)
qed

lemma length_digest_hex: "length (digest_hex bs) = 2 * length bs"
  by (induction bs) (simp_all add: digest_hex_def)

lemma length_Buffer_from: "length (Buffer_from s) = length s"
  by (simp add: Buffer_from_def)

text \<open>
  What \<^verbatim>\<open>verifySignature\<close> does on every input: it throws when the supplied tag has
  another byte length than the recomputed one, and otherwise returns whether they are equal.
\<close>

lemma byte_of_char_inj: "(of_nat (of_char c) :: byte) = of_nat (of_char c') \<Longrightarrow> c = c'"
proof -
  assume a: "(of_nat (of_char c) :: byte) = of_nat (of_char c')"
  have lt: "(of_char c :: nat) < 256" "(of_char c' :: nat) < 256"
    by (simp_all add: of_char_def)
  have "unat (of_nat (of_char c) :: byte) = of_char c" "unat (of_nat (of_char c') :: byte) = of_char c'"
    using lt by (simp_all add: unat_of_nat)
  with a have "(of_char c :: nat) = of_char c'" by metis
  then show "c = c'" by simp
qed

lemma Buffer_from_inj: "Buffer_from a = Buffer_from b \<longleftrightarrow> a = b"
proof
  assume "Buffer_from a = Buffer_from b"
  then show "a = b"
    unfolding Buffer_from_def
    by (induction a arbitrary: b) (auto dest: byte_of_char_inj)
qed simp

lemma verifySignature_cases:
  fixes payload signature secret :: string
  shows "verifySignature hmac payload signature secret =
     (if length signature \<noteq> 2 * length (hmac (Buffer_from secret) (Buffer_from payload))
      then Inl RangeError
      else Inr (signature = generateSignature hmac payload secret))"
  by (simp add: verifySignature_def timingSafeEqual_def length_Buffer_from Buffer_from_inj
      length_digest_hex generateSignature_def)

text \<open>
  C1: verifying the tag that signing produced, with the same payload and the same secret,
  returns true (no exception), whatever the payload and the secret; the tag is the hex
  rendering of the keyed hash of the payload bytes under the secret's bytes, and every
  character of it is a lowercase hexadecimal digit.
\<close>

theorem verify_of_sign:
  fixes payload secret :: string
  shows "verifySignature hmac payload (generateSignature hmac payload secret) secret = Inr True
   \<and> generateSignature hmac payload secret
       = digest_hex (hmac (Buffer_from secret) (Buffer_from payload))
   \<and> set (generateSignature hmac payload secret) \<subseteq> set ''0123456789abcdef''"
proof -
  have "set (generateSignature hmac payload secret) \<subseteq> set ''0123456789abcdef''"
    unfolding generateSignature_def by (rule digest_hex_lower)
  moreover have "verifySignature hmac payload (generateSignature hmac payload secret) secret
      = Inr True"
    by (simp add: verifySignature_def timingSafeEqual_def)
  ultimately show ?thesis
    by (simp only: generateSignature_def simp_thms)
qed

text \<open>
  C2 (the code at a tag of another length): the recomputed tag has an even number of
  bytes, so a supplied tag of one byte differs from it in length, and
  \<^verbatim>\<open>crypto.timingSafeEqual\<close> throws instead of returning false. Neither
  \<^verbatim>\<open>verifySignature\<close> nor \<^verbatim>\<open>verifyIncomingWebhook\<close> catches it.
\<close>

theorem verify_throws_on_length_mismatch:
  fixes payload secret :: string
  shows "verifySignature hmac payload ''a'' secret = Inl RangeError
   \<and> verifyIncomingWebhook hmac payload ''a'' secret = Inl RangeError"
proof -
  have "length (Buffer_from (generateSignature hmac payload secret)) \<noteq> 1"
    by (simp add: length_Buffer_from generateSignature_def length_digest_hex)
  then show ?thesis
    by (simp add: verifyIncomingWebhook_def verifySignature_def timingSafeEqual_def
        length_Buffer_from)
qed

section \<open>Identifier allocation\<close>

lemma idsBelow_iff:
  "idsBelow s \<longleftrightarrow> (\<forall>k \<in> allKeys s. \<exists>i. k = JNum (of_nat i) \<and> i < currentId s)"
  unfolding idsBelow_def by (rule ball_cong [OF refl]) auto


lemma keys_Map_set: "set (Map_keys (Map_set k v m)) = insert k (set (Map_keys m))"
  by (simp add: Map_keys_def Map_set_def dom_update)

lemma keys_Map_delete: "set (Map_keys (Map_delete k m)) \<subseteq> set (Map_keys m)"
  by (simp add: Map_keys_def Map_delete_def delete_keys)

lemma Map_get_Some_key: "Map_get m k = Some v \<Longrightarrow> k \<in> set (Map_keys m)"
  by (auto simp: Map_get_def Map_keys_def dest: map_of_SomeD intro: rev_image_eqI)

lemma keys_Map_set_present:
  "Map_get m k = Some v \<Longrightarrow> set (Map_keys (Map_set k w m)) = set (Map_keys m)"
  using Map_get_Some_key [of m k v] by (auto simp: keys_Map_set)

lemma idsBelow_grow:
  assumes "idsBelow s"
    and "allKeys s' \<subseteq> insert (JNum (of_nat (currentId s))) (allKeys s)"
    and "currentId s < currentId s'"
  shows "idsBelow s'"
  unfolding idsBelow_iff
proof
  fix k assume "k \<in> allKeys s'"
  then consider "k = JNum (of_nat (currentId s))" | "k \<in> allKeys s" using assms(2) by auto
  then show "\<exists>i. k = JNum (of_nat i) \<and> i < currentId s'"
  proof cases
    case 1
    then show ?thesis using assms(3) by blast
  next
    case 2
    then obtain i where "k = JNum (of_nat i)" "i < currentId s"
      using assms(1) unfolding idsBelow_iff by blast
    then have "k = JNum (of_nat i) \<and> i < currentId s'" using assms(3) by simp
    then show ?thesis ..
  qed
qed

lemma idsBelow_keep:
  assumes "idsBelow s" and "allKeys s' \<subseteq> allKeys s" and "currentId s \<le> currentId s'"
  shows "idsBelow s'"
  unfolding idsBelow_iff
proof
  fix k assume "k \<in> allKeys s'"
  then have "k \<in> allKeys s" using assms(2) by auto
  then obtain i where "k = JNum (of_nat i)" "i < currentId s"
    using assms(1) unfolding idsBelow_iff by blast
  then have "k = JNum (of_nat i) \<and> i < currentId s'" using assms(3) by simp
  then show "\<exists>i. k = JNum (of_nat i) \<and> i < currentId s'" ..
qed

lemmas create_defs = createUser_def createConversation_def createMessage_def createProduct_def
  createOrder_def createRecommendation_def createWebhook_def nextId_def

lemmas update_defs = updateConversation_def updateProduct_def updateOrder_def
  updateRecommendation_def updateWebhook_def

lemma create_effect:
  assumes "isCreate x"
  shows "allKeys (snd (perform x s)) = insert (JNum (of_nat (currentId s))) (allKeys s)"
    and "currentId (snd (perform x s)) = currentId s + 1"
    and "returnedId (fst (perform x s)) = JNum (of_nat (currentId s))"
  using assms
  by (cases x; simp add: create_defs allKeys_def keys_Map_set Let_def field_def; blast?)+

lemma update_effect:
  assumes "\<not> isCreate x" and "\<forall>clock ds. x \<noteq> SyncProducts clock ds"
  shows "allKeys (snd (perform x s)) \<subseteq> allKeys s"
    and "currentId (snd (perform x s)) = currentId s"
proof -
  show "allKeys (snd (perform x s)) \<subseteq> allKeys s"
    using assms
    by (cases x)
      (auto simp: update_defs deleteWebhook_def allKeys_def keys_Map_set_present Let_def
        split: option.splits dest: subsetD [OF keys_Map_delete])
  show "currentId (snd (perform x s)) = currentId s"
    using assms
    by (cases x) (auto simp: update_defs deleteWebhook_def Let_def split: option.splits)
qed

lemma idsBelow_create:
  assumes "idsBelow s" and "isCreate x"
  shows "idsBelow (snd (perform x s))"
  using idsBelow_grow [OF assms(1), of "snd (perform x s)"] create_effect [OF assms(2), of s]
  by simp

lemma idsBelow_update:
  assumes "idsBelow s" and "\<not> isCreate x" and "\<forall>clock ds. x \<noteq> SyncProducts clock ds"
  shows "idsBelow (snd (perform x s))"
  using idsBelow_keep [OF assms(1), of "snd (perform x s)"] update_effect [OF assms(2,3), of s]
  by simp

lemma syncProducts_Cons:
  "snd (syncProducts clock (d # ds) s) =
     snd (syncProducts (\<lambda>i. clock (Suc i)) ds
       (case getProductByShopifyId (field d ''shopifyId'') s of
          Some existing \<Rightarrow> snd (perform (UpdateProduct (clock 0) (field existing ''id'') d) s)
        | None \<Rightarrow> snd (perform (CreateProduct (clock 0) d) s)))"
  by (simp split: option.splits prod.splits)

lemma idsBelow_syncProducts: "idsBelow s \<Longrightarrow> idsBelow (snd (syncProducts clock ds s))"
proof (induction ds arbitrary: s clock)
  case Nil
  then show ?case by simp
next
  case (Cons d ds)
  have "idsBelow (snd (perform (CreateProduct (clock 0) d) s))"
    by (rule idsBelow_create [OF Cons.prems]) simp
  moreover have "idsBelow (snd (perform (UpdateProduct (clock 0) k d) s))" for k
    by (rule idsBelow_update [OF Cons.prems]) simp_all
  ultimately show ?case
    unfolding syncProducts_Cons
    by (intro Cons.IH) (simp split: option.splits del: perform.simps)
qed

lemma currentId_syncProducts: "currentId s \<le> currentId (snd (syncProducts clock ds s))"
proof (induction ds arbitrary: s clock)
  case Nil
  then show ?case by simp
next
  case (Cons d ds)
  let ?s = "case getProductByShopifyId (field d ''shopifyId'') s of
          Some existing \<Rightarrow> snd (perform (UpdateProduct (clock 0) (field existing ''id'') d) s)
        | None \<Rightarrow> snd (perform (CreateProduct (clock 0) d) s)"
  have "currentId s \<le> currentId ?s"
    by (auto split: option.splits simp del: perform.simps simp: create_effect(2) update_effect(2))
  also have "\<dots> \<le> currentId (snd (syncProducts (\<lambda>i. clock (Suc i)) ds ?s))"
    by (rule Cons.IH)
  finally show ?case unfolding syncProducts_Cons .
qed

lemma idsBelow_perform:
  assumes "idsBelow s"
  shows "idsBelow (snd (perform x s))"
proof -
  consider "isCreate x" | clock ds where "x = SyncProducts clock ds"
    | "\<not> isCreate x" "\<forall>clock ds. x \<noteq> SyncProducts clock ds"
    by blast
  then show ?thesis
  proof cases
    case 1
    then show ?thesis by (rule idsBelow_create [OF assms])
  next
    case 2
    then show ?thesis using idsBelow_syncProducts [OF assms] by simp
  next
    case 3
    then show ?thesis by (rule idsBelow_update [OF assms])
  qed
qed

lemma currentId_perform: "currentId s \<le> currentId (snd (perform x s))"
proof -
  consider "isCreate x" | clock ds where "x = SyncProducts clock ds"
    | "\<not> isCreate x" "\<forall>clock ds. x \<noteq> SyncProducts clock ds"
    by blast
  then show ?thesis
  proof cases
    case 1
    then show ?thesis by (simp add: create_effect(2) del: perform.simps)
  next
    case 2
    then show ?thesis using currentId_syncProducts by simp
  next
    case 3
    then show ?thesis by (simp add: update_effect(2) del: perform.simps)
  qed
qed

lemma currentId_performAll: "currentId s \<le> currentId (performAll xs s)"
proof (induction xs arbitrary: s)
  case Nil
  then show ?case by simp
next
  case (Cons x xs)
  have "currentId s \<le> currentId (snd (perform x s))" by (rule currentId_perform)
  also have "\<dots> \<le> currentId (performAll xs (snd (perform x s)))" by (rule Cons.IH)
  finally show ?case by simp
qed

lemma idsBelow_MemStorage: "idsBelow MemStorage"
  by (simp add: idsBelow_iff allKeys_def MemStorage_def Map_keys_def)

lemma reachable_idsBelow: "reachable s \<Longrightarrow> idsBelow s"
  by (induction rule: reachable.induct) (simp_all add: idsBelow_MemStorage idsBelow_perform)

lemma reachable_performAll: "reachable s \<Longrightarrow> reachable (performAll xs s)"
  by (induction xs arbitrary: s) (simp_all add: reachable.step)

lemmas store_eval = create_defs update_defs deleteWebhook_def MemStorage_def Let_def Map_set_def
  Map_get_def Map_delete_def Map_keys_def Map_values_def field_def getProductByShopifyId_def

text \<open>
  C8: in every store reached from the empty one by the store's operations, a create
  operation of any of the seven kinds returns a record whose id is the present value of
  the one shared counter; every key of every Map is a number below that value, so the new
  id is strictly greater than all of them; the counter then stands one higher; and whatever
  operations follow, every later create returns a strictly greater id.
\<close>

theorem create_assigns_fresh_id:
  assumes "reachable s" and "isCreate x"
  shows "returnedId (fst (perform x s)) = JNum (of_nat (currentId s))
    \<and> idsBelow s
    \<and> currentId (snd (perform x s)) = currentId s + 1
    \<and> (\<forall>xs y. isCreate y \<longrightarrow>
          (\<exists>j. returnedId (fst (perform y (performAll xs (snd (perform x s))))) = JNum (of_nat j)
             \<and> currentId s < j))"
proof -
  have later: "\<exists>j. returnedId (fst (perform y (performAll xs (snd (perform x s))))) = JNum (of_nat j)
             \<and> currentId s < j" if "isCreate y" for xs y
  proof -
    let ?s' = "performAll xs (snd (perform x s))"
    have "currentId s < currentId (snd (perform x s))"
      by (simp add: create_effect(2) [OF assms(2)])
    also have "\<dots> \<le> currentId ?s'" by (rule currentId_performAll)
    finally have "currentId s < currentId ?s'" .
    moreover have "returnedId (fst (perform y ?s')) = JNum (of_nat (currentId ?s'))"
      by (rule create_effect(3) [OF that])
    ultimately show ?thesis by blast
  qed
  show ?thesis
    using create_effect(2,3) [OF assms(2), of s] reachable_idsBelow [OF assms(1)] later
    by blast
qed

theorem create_assigns_fresh_id_witness:
  "reachable populatedStore \<and> isCreate (CreateOrder 4 4 orderDraft)
   \<and> Map_keys (conversations populatedStore) = [JNum 1]
   \<and> Map_keys (messages populatedStore) = [JNum 2]
   \<and> Map_keys (products populatedStore) = [JNum 3]
   \<and> Map_keys (webhooks populatedStore) = [JNum 4]
   \<and> currentId populatedStore = 5
   \<and> returnedId (fst (perform (CreateOrder 4 4 orderDraft) populatedStore)) = JNum 5
   \<and> currentId (snd (perform (CreateOrder 4 4 orderDraft) populatedStore)) = 6
   \<and> returnedId (fst (perform (CreateUser 7 userDraft)
         (performAll [DeleteWebhook (JNum 4),
                      UpdateConversation 6 (JNum 1) [''status'' \<mapsto> JStr ''completed'']]
            (snd (perform (CreateOrder 4 4 orderDraft) populatedStore))))) = JNum 6"
proof -
  have r: "reachable populatedStore"
    unfolding populatedStore_def by (rule reachable_performAll [OF reachable.init])
  have c: "isCreate (CreateOrder 4 4 orderDraft)" by simp
  have n: "currentId populatedStore = 5" by (simp add: populatedStore_def store_eval)
  have keys: "Map_keys (conversations populatedStore) = [JNum 1]
     \<and> Map_keys (messages populatedStore) = [JNum 2]
     \<and> Map_keys (products populatedStore) = [JNum 3]
     \<and> Map_keys (webhooks populatedStore) = [JNum 4]"
    by (simp add: populatedStore_def store_eval)
  have "returnedId (fst (perform (CreateOrder 4 4 orderDraft) populatedStore))
          = JNum (of_nat (currentId populatedStore))
      \<and> currentId (snd (perform (CreateOrder 4 4 orderDraft) populatedStore))
          = currentId populatedStore + 1"
    using create_assigns_fresh_id [OF r c] by blast
  then have here: "returnedId (fst (perform (CreateOrder 4 4 orderDraft) populatedStore)) = JNum 5
      \<and> currentId (snd (perform (CreateOrder 4 4 orderDraft) populatedStore)) = 6"
    by (simp add: n)
  have later: "returnedId (fst (perform (CreateUser 7 userDraft)
         (performAll [DeleteWebhook (JNum 4),
                      UpdateConversation 6 (JNum 1) [''status'' \<mapsto> JStr ''completed'']]
            (snd (perform (CreateOrder 4 4 orderDraft) populatedStore))))) = JNum 6"
    by (simp add: populatedStore_def store_eval)
  show ?thesis using r c n keys here later by blast
qed

section \<open>Referential integrity of messages: what holds\<close>










section \<open>The ranking of recommended products\<close>

lemma set_slice0: "set (slice0 xs n) \<subseteq> set xs"
  by (auto simp: slice0_def dest: in_set_takeD)

lemma length_slice0: "length (slice0 xs n) \<le> length xs"
  by (simp add: slice0_def)

lemma joinProduct_cases:
  "joinProduct s (pid, st) = (case Map_get (products s) pid of None \<Rightarrow> [] | Some p \<Rightarrow>
     [\<lparr> tp_product = p, tp_recommendations = fst st,
        tp_successRate = (if fst st > 0 then of_nat (snd st) / of_nat (fst st) else 0) \<rparr>])"
  by (simp add: joinProduct_def split: option.splits)

lemma length_concat_join:
  "length (concat (map (joinProduct s) gs)) = length (filter (\<lambda>(pid, st). Map_get (products s) pid \<noteq> None) gs)"
  by (induction gs) (auto simp: joinProduct_def split: option.splits)

lemma top_entries_have_product:
  assumes "e \<in> set (getTopRecommendedProducts limit s)"
  shows "\<exists>pid st. (pid, st) \<in> set (productStats s) \<and> Map_get (products s) pid = Some (tp_product e)
     \<and> tp_recommendations e = fst st"
proof -
  from assms set_slice0 have "e \<in> set (concat (map (joinProduct s) (productStats s)))"
    by (fastforce simp: getTopRecommendedProducts_def Let_def)
  then obtain pid st where g: "(pid, st) \<in> set (productStats s)" and e: "e \<in> set (joinProduct s (pid, st))"
    by auto
  from e have "Map_get (products s) pid = Some (tp_product e) \<and> tp_recommendations e = fst st"
    by (auto simp: joinProduct_cases split: option.splits)
  with g show ?thesis by blast
qed

lemma top_length:
  "length (getTopRecommendedProducts limit s)
     \<le> length (filter (\<lambda>(pid, st). Map_get (products s) pid \<noteq> None) (productStats s))"
  using length_slice0 [of "sort_key (\<lambda>r. - int (tp_recommendations r)) (concat (map (joinProduct s) (productStats s)))" limit]
  by (simp add: getTopRecommendedProducts_def Let_def length_concat_join)

lemma foldl_stats_keys:
  fixes F :: "(nat \<times> nat) jsmap \<Rightarrow> obj \<Rightarrow> (nat \<times> nat) jsmap"
  assumes F: "\<And>acc r. \<exists>v. F acc r = Map_set (field r ''productId'') v acc"
  shows "set (Map_keys (foldl F acc rs)) = set (Map_keys acc) \<union> (\<lambda>r. field r ''productId'') ` set rs
     \<and> (distinct (Map_keys acc) \<longrightarrow> distinct (Map_keys (foldl F acc rs)))"
proof (induction rs arbitrary: acc)
  case Nil
  then show ?case by simp
next
  case (Cons r rs)
  obtain v where v: "F acc r = Map_set (field r ''productId'') v acc" using F by blast
  have "set (Map_keys (F acc r)) = insert (field r ''productId'') (set (Map_keys acc))"
    by (simp add: v keys_Map_set)
  moreover have "distinct (Map_keys acc) \<longrightarrow> distinct (Map_keys (F acc r))"
    by (simp add: v Map_keys_def Map_set_def distinct_update)
  ultimately show ?case using Cons.IH [of "F acc r"] by auto
qed

lemma productStats_keys:
  "set (Map_keys (productStats s)) = (\<lambda>r. field r ''productId'') ` set (Map_values (recommendations s))
   \<and> distinct (Map_keys (productStats s))"
proof -
  define F :: "(nat \<times> nat) jsmap \<Rightarrow> obj \<Rightarrow> (nat \<times> nat) jsmap" where
    "F = (\<lambda>productStats rec.
        let stats = (case Map_get productStats (field rec ''productId'') of
                       Some st \<Rightarrow> st | None \<Rightarrow> (0, 0));
            stats1 = (fst stats + 1, snd stats);
            stats2 = (if truthy (field rec ''accepted'') then (fst stats1, snd stats1 + 1) else stats1)
        in Map_set (field rec ''productId'') stats2 productStats)"
  have "\<exists>v. F acc r = Map_set (field r ''productId'') v acc" for acc r
    unfolding F_def Let_def by (rule exI) (rule refl)
  from foldl_stats_keys [of F "[]" "Map_values (recommendations s)", OF this]
  show ?thesis by (simp add: productStats_def F_def Map_keys_def)
qed

lemmas eval_defs = create_defs MemStorage_def Let_def Map_set_def Map_get_def Map_keys_def
  Map_values_def field_def joinProduct_def slice0_def productStats_def
  getTopRecommendedProducts_def

lemma orphanStore_ranking:
  "Map_keys (productStats orphanStore) = [JNum 5, JNum 6]
   \<and> getTopRecommendedProducts 2 orphanStore = []"
  by (simp add: orphanStore_def eval_defs)

lemma concat_join_filter:
  "concat (map (joinProduct s) gs)
     = concat (map (joinProduct s) (filter (\<lambda>(productId, stats). Map_get (products s) productId \<noteq> None) gs))"
  by (induction gs) (auto simp: joinProduct_def)

lemma top_ignores_orphans:
  "getTopRecommendedProducts limit s
     = slice0 (sort_key (\<lambda>r. - int (tp_recommendations r))
         (concat (map (joinProduct s)
            (filter (\<lambda>(productId, stats). Map_get (products s) productId \<noteq> None) (productStats s))))) limit"
  using concat_join_filter [of s "productStats s"]
  by (simp add: getTopRecommendedProducts_def Let_def)

text \<open>
  C10: every entry of the ranking comes from a group of recommendations whose product id
  has a product record in the store, and carries that record; so the ranking is never
  longer than the number of such groups, whatever the limit, and it is the ranking one gets
  after dropping the groups without a product record. The groups are exactly the
  distinct product ids among the recommendations. In \<open>orphanStore\<close> two distinct product
  ids are recommended and the ranking for limit 2 is empty.
\<close>

theorem top_products_inner_join:
  "(\<forall>e \<in> set (getTopRecommendedProducts limit s).
      \<exists>productId stats. (productId, stats) \<in> set (productStats s)
        \<and> Map_get (products s) productId = Some (tp_product e)
        \<and> tp_recommendations e = fst stats)
   \<and> length (getTopRecommendedProducts limit s)
       \<le> length (filter (\<lambda>(productId, stats). Map_get (products s) productId \<noteq> None)
            (productStats s))
   \<and> getTopRecommendedProducts limit s
       = slice0 (sort_key (\<lambda>r. - int (tp_recommendations r))
           (concat (map (joinProduct s)
              (filter (\<lambda>(productId, stats). Map_get (products s) productId \<noteq> None)
                 (productStats s))))) limit
   \<and> set (Map_keys (productStats s))
       = (\<lambda>r. field r ''productId'') ` set (Map_values (recommendations s))
   \<and> distinct (Map_keys (productStats s))
   \<and> Map_keys (productStats orphanStore) = [JNum 5, JNum 6]
   \<and> getTopRecommendedProducts 2 orphanStore = []"
  using top_entries_have_product [of _ limit s] top_length [of limit s] productStats_keys [of s]
    orphanStore_ranking top_ignores_orphans [of limit s]
  by blast

theorem top_products_inner_join_witness:
  "Map_keys (productStats mixedStore) = [JNum 9, JNum 1]
   \<and> Map_get (products mixedStore) (JNum 9) = None
   \<and> map tp_recommendations (getTopRecommendedProducts 10 mixedStore) = [2]
   \<and> map tp_successRate (getTopRecommendedProducts 10 mixedStore) = [1 / 2]
   \<and> length (getTopRecommendedProducts 10 mixedStore)
       \<le> length (filter (\<lambda>(productId, stats). Map_get (products mixedStore) productId \<noteq> None)
            (productStats mixedStore))"
proof -
  have "length (getTopRecommendedProducts 10 mixedStore)
       \<le> length (filter (\<lambda>(productId, stats). Map_get (products mixedStore) productId \<noteq> None)
            (productStats mixedStore))"
    using top_products_inner_join [of 10 mixedStore] by blast
  moreover have "Map_keys (productStats mixedStore) = [JNum 9, JNum 1]
     \<and> Map_get (products mixedStore) (JNum 9) = None"
    by (simp add: mixedStore_def eval_defs)
  moreover have "map tp_recommendations (getTopRecommendedProducts 10 mixedStore) = [2]
     \<and> map tp_successRate (getTopRecommendedProducts 10 mixedStore) = [1 / 2]"
    by (simp add: mixedStore_def eval_defs)
  ultimately show ?thesis by blast
qed

section \<open>Dashboard metrics\<close>

text \<open>
  What \<^verbatim>\<open>getMetrics\<close> computes, figure by figure, and its value on the empty store. The
  numerator of the conversion rate is the number of distinct values of the orders'
  \<^verbatim>\<open>conversationId\<close> property.
\<close>

lemma foldl_plus_sum_list:
  fixes f :: "'a \<Rightarrow> rat"
  shows "foldl (\<lambda>sum x. sum + f x) a xs = a + sum_list (map f xs)"
  by (induction xs arbitrary: a) (simp_all add: add.assoc)

lemma getMetrics_figures:
  "activeConversations (getMetrics toNumber s)
      = length (filter (\<lambda>conv. field conv ''status'' = JStr ''active'') (Map_values (conversations s)))
   \<and> totalConversations (getMetrics toNumber s) = length (conversations s)
   \<and> totalOrders (getMetrics toNumber s) = length (orders s)
   \<and> totalRevenue (getMetrics toNumber s)
      = sum_list (map (\<lambda>order. toNumber (field order ''totalAmount''))
          (filter (\<lambda>order. field order ''status'' = JStr ''completed'') (Map_values (orders s))))
   \<and> averageOrderValue (getMetrics toNumber s)
      = (if filter (\<lambda>order. field order ''status'' = JStr ''completed'') (Map_values (orders s)) = []
         then 0
         else totalRevenue (getMetrics toNumber s)
              / of_nat (length (filter (\<lambda>order. field order ''status'' = JStr ''completed'')
                                  (Map_values (orders s)))))
   \<and> conversionRate (getMetrics toNumber s)
      = (if conversations s = [] then 0
         else of_nat (card ((\<lambda>order. field order ''conversationId'') ` set (Map_values (orders s))))
              / of_nat (length (conversations s)))"
  by (simp add: getMetrics_def Let_def foldl_plus_sum_list length_remdups_card_conv Map_values_def)

lemma getMetrics_empty:
  "getMetrics toNumber MemStorage =
     \<lparr> activeConversations = 0, totalConversations = 0, conversionRate = 0, totalRevenue = 0,
       averageOrderValue = 0, totalOrders = 0 \<rparr>"
  by (simp add: getMetrics_def MemStorage_def Map_values_def)

text \<open>
  C7 (the code at a store with an unattributed order): the one order of
  \<open>unattributedStore\<close> carries no conversation id, so no conversation id appears among the
  orders and the one conversation has no order; yet the \<^verbatim>\<open>Set\<close> built from the orders'
  \<^verbatim>\<open>conversationId\<close> holds \<^verbatim>\<open>undefined\<close> and has size 1, and the conversion rate comes
  out as 1 instead of 0.
\<close>

theorem conversion_rate_counts_missing_id:
  "map (\<lambda>order. field order ''conversationId'') (Map_values (orders unattributedStore)) = [JUndefined]
   \<and> totalConversations (getMetrics toNumber unattributedStore) = 1
   \<and> conversionRate (getMetrics toNumber unattributedStore) = 1"
  by (simp add: unattributedStore_def getMetrics_def create_defs MemStorage_def Let_def Map_set_def
      Map_values_def field_def)

section \<open>Fan-out of an event to the subscriptions\<close>

lemma triggerWebhook_effect:
  "triggerWebhook post hmac stringify webhook payload io =
     (succeeded (fst (post (world io) (deliveryRequest hmac stringify payload webhook))),
      \<lparr> world = snd (post (world io) (deliveryRequest hmac stringify payload webhook)),
        requests = requests io @ [deliveryRequest hmac stringify payload webhook],
        console = add_mset
          (logFor payload webhook (fst (post (world io) (deliveryRequest hmac stringify payload webhook))))
          (console io) \<rparr>)"
  by (auto simp: triggerWebhook_def succeeded_def logFor_def Let_def split: prod.splits sum.splits)

lemma triggerAll_effect:
  "fst (triggerAll post hmac stringify ws payload io)
      = map succeeded (responses post (world io) (map (deliveryRequest hmac stringify payload) ws))
   \<and> requests (snd (triggerAll post hmac stringify ws payload io))
      = requests io @ map (deliveryRequest hmac stringify payload) ws
   \<and> console (snd (triggerAll post hmac stringify ws payload io))
      = console io + mset (map2 (logFor payload) ws
          (responses post (world io) (map (deliveryRequest hmac stringify payload) ws)))"
proof (induction ws arbitrary: io)
  case Nil
  then show ?case by simp
next
  case (Cons w ws)
  let ?r = "deliveryRequest hmac stringify payload w"
  let ?io' = "snd (triggerWebhook post hmac stringify w payload io)"
  have w: "world ?io' = snd (post (world io) ?r)"
    and r: "requests ?io' = requests io @ [?r]"
    and c: "console ?io' = add_mset (logFor payload w (fst (post (world io) ?r))) (console io)"
    and f: "fst (triggerWebhook post hmac stringify w payload io) = succeeded (fst (post (world io) ?r))"
    by (simp_all add: triggerWebhook_effect)
  have unfold: "triggerAll post hmac stringify (w # ws) payload io =
      (fst (triggerWebhook post hmac stringify w payload io)
         # fst (triggerAll post hmac stringify ws payload ?io'),
       snd (triggerAll post hmac stringify ws payload ?io'))"
    by (simp add: case_prod_beta)
  show ?case
    unfolding unfold using Cons.IH [of ?io']
    by (simp add: w r c f case_prod_beta)
qed

lemma length_responses: "length (responses post w rs) = length rs"
  by (induction rs arbitrary: w) (simp_all split: prod.splits)

lemma relevant_iff:
  "(isActive webhook = Some True \<and> isArray (events webhook)
      \<and> includes' (events webhook) (JStr ''order.created''))
   \<longleftrightarrow> (isActive webhook = Some True
      \<and> (\<exists>names. events webhook = JArr names \<and> JStr ''order.created'' \<in> set names))"
  by (cases "events webhook") (simp_all add: isArray_def includes'_def)

text \<open>
  C3: dispatching an order-created event issues one request for each subscription of the
  list that is active and has \<^verbatim>\<open>order.created\<close> in its event array, in list order, and
  none for any other subscription; so with K such subscriptions exactly K requests are
  added. Each request goes to the subscription's url and carries, as
  \<^verbatim>\<open>X-Webhook-Signature\<close>, the hex HMAC of the serialized envelope under that
  subscription's own secret.
\<close>

theorem order_created_fan_out:
  "requests (triggerOrderCreated post hmac stringify timestamp order webhookList io)
     = requests io
       @ map (\<lambda>webhook.
           \<lparr> rq_url = url webhook, rq_data = orderCreatedPayload timestamp order,
             rq_headers =
               [(''Content-Type'', JStr ''application/json''),
                (''X-Webhook-Signature'',
                   JStr (digest_hex (hmac (Buffer_from (secret webhook))
                      (Buffer_from (stringify (orderCreatedPayload timestamp order)))))),
                (''X-Webhook-Event'', JStr ''order.created''),
                (''User-Agent'', JStr ''SalesBot-AI-Webhook/1.0'')],
             rq_timeout = 30000 \<rparr>)
          (filter (\<lambda>webhook. isActive webhook = Some True
              \<and> (\<exists>names. events webhook = JArr names \<and> JStr ''order.created'' \<in> set names))
             webhookList)
   \<and> length (requests (triggerOrderCreated post hmac stringify timestamp order webhookList io))
     = length (requests io)
       + length (filter (\<lambda>webhook. isActive webhook = Some True
              \<and> (\<exists>names. events webhook = JArr names \<and> JStr ''order.created'' \<in> set names))
             webhookList)"
proof -
  have req: "deliveryRequest hmac stringify (orderCreatedPayload timestamp order) webhook =
      \<lparr> rq_url = url webhook, rq_data = orderCreatedPayload timestamp order,
        rq_headers =
          [(''Content-Type'', JStr ''application/json''),
           (''X-Webhook-Signature'',
              JStr (digest_hex (hmac (Buffer_from (secret webhook))
                 (Buffer_from (stringify (orderCreatedPayload timestamp order)))))),
           (''X-Webhook-Event'', JStr ''order.created''),
           (''User-Agent'', JStr ''SalesBot-AI-Webhook/1.0'')],
        rq_timeout = 30000 \<rparr>" for webhook
    by (simp add: deliveryRequest_def generateSignature_def Let_def)
      (simp add: orderCreatedPayload_def member_def)
  have first: "requests (triggerOrderCreated post hmac stringify timestamp order webhookList io)
     = requests io
       @ map (deliveryRequest hmac stringify (orderCreatedPayload timestamp order))
          (filter (\<lambda>webhook. isActive webhook = Some True
              \<and> (\<exists>names. events webhook = JArr names \<and> JStr ''order.created'' \<in> set names))
             webhookList)"
    by (simp add: triggerOrderCreated_def Let_def triggerAll_effect relevant_iff)
  show ?thesis
    unfolding first by (simp add: req)
qed

text \<open>
  C4: whatever the network answers, \<^verbatim>\<open>triggerWebhook\<close> returns a boolean for every
  target of the batch (no exception leaves it), every target's request is issued, and the
  verdict and the log line of a target are determined by the answer to that target's own
  request: success exactly for a 2xx status, failure for any other status and for a
  rejected request. The lines the batch adds to the console are one per target, as a bag:
  nothing is said about the order in which they are written. With the network \<open>flakyPost\<close> the second and third of four targets
  fail and the first and fourth succeed.
\<close>

theorem delivery_failures_isolated:
  "fst (triggerAll post hmac stringify targets payload io)
      = map succeeded (responses post (world io) (map (deliveryRequest hmac stringify payload) targets))
   \<and> length (fst (triggerAll post hmac stringify targets payload io)) = length targets
   \<and> requests (snd (triggerAll post hmac stringify targets payload io))
      = requests io @ map (deliveryRequest hmac stringify payload) targets
   \<and> console (snd (triggerAll post hmac stringify targets payload io))
      = console io + mset (map2 (logFor payload) targets
          (responses post (world io) (map (deliveryRequest hmac stringify payload) targets)))
   \<and> fst (triggerAll flakyPost hmac stringify
          [hook 1 ''https://a.example/hook'', hook 2 ''https://b.example/hook'',
           hook 3 ''https://c.example/hook'', hook 4 ''https://d.example/hook''] payload emptyIo)
      = [True, False, False, True]"
proof -
  have "fst (triggerAll flakyPost hmac stringify
          [hook 1 ''https://a.example/hook'', hook 2 ''https://b.example/hook'',
           hook 3 ''https://c.example/hook'', hook 4 ''https://d.example/hook''] payload emptyIo)
      = [True, False, False, True]"
    unfolding conjunct1 [OF triggerAll_effect]
    by (simp add: deliveryRequest_def Let_def hook_def flakyPost_def emptyIo_def succeeded_def)
  then show ?thesis
    using triggerAll_effect [of post hmac stringify targets payload io]
    by (simp add: length_responses)
qed

section \<open>Rejections of the inbound webhook endpoint\<close>

lemma verify_odd_length:
  fixes body signature secret' :: string
  assumes "odd (length signature)"
  shows "verifyIncomingWebhook hmac body signature secret' = Inl RangeError"
proof -
  have "even (length (Buffer_from (generateSignature hmac body secret')))"
    by (simp add: length_Buffer_from generateSignature_def length_digest_hex)
  with assms have "length (Buffer_from (generateSignature hmac body secret')) \<noteq> length signature"
    by metis
  then show ?thesis
    by (auto simp: verifyIncomingWebhook_def verifySignature_def timingSafeEqual_def
        length_Buffer_from)
qed

text \<open>
  C6 (the code at a signature of another length): the request \<open>shortTagRequest\<close> carries
  both headers and a complete body, and its three-byte signature cannot verify. The
  exception of \<^verbatim>\<open>crypto.timingSafeEqual\<close> reaches the handler's \<^verbatim>\<open>catch\<close>, and the answer
  is 500, not 401. The store is unchanged.
\<close>

theorem webhook_chat_short_tag:
  "webhookChat hmac stringify processMessage clock shortTagRequest s
     = (\<lparr> statusCode = 500,
          jsonBody = JObj [(''error'', JStr ''Input buffers must have the same byte length'')] \<rparr>, s)"
  by (simp add: webhookChat_def shortTagRequest_def verify_odd_length reply_def)

theorem webhook_chat_short_tag_witness:
  "webhookChat zeroHmac constStringify assistantDown (\<lambda>i. 0) shortTagRequest MemStorage
     = (\<lparr> statusCode = 500,
          jsonBody = JObj [(''error'', JStr ''Input buffers must have the same byte length'')] \<rparr>,
        MemStorage)"
  by (rule webhook_chat_short_tag)

text \<open>
  The rejections that the handler does make as the specification says: a missing or empty
  header gives 401, a signature of the right length that does not match gives 401, a
  verified body without \<^verbatim>\<open>message\<close> or \<^verbatim>\<open>session_id\<close> gives 400; and whenever
  verification does not return true, the store is left as it was.
\<close>

lemma webhookChat_missing_header:
  assumes "signatureHeader req = None \<or> signatureHeader req = Some []
     \<or> secretHeader req = None \<or> secretHeader req = Some []"
  shows "webhookChat hmac stringify processMessage clock req s
     = (reply 401 ''Missing webhook signature or secret'', s)"
  using assms by (auto simp: webhookChat_def split: option.splits)

lemma webhookChat_invalid:
  assumes "signatureHeader req = Some signature" "signature \<noteq> []"
    and "secretHeader req = Some secret'" "secret' \<noteq> []"
    and "reqBody req \<noteq> JUndefined"
    and "verifyIncomingWebhook hmac (stringify (reqBody req)) signature secret' = Inr False"
  shows "webhookChat hmac stringify processMessage clock req s
     = (reply 401 ''Invalid webhook signature'', s)"
  using assms by (simp add: webhookChat_def)

lemma webhookChat_missing_field:
  assumes "signatureHeader req = Some signature" "signature \<noteq> []"
    and "secretHeader req = Some secret'" "secret' \<noteq> []"
    and "reqBody req = JObj kvs"
    and "verifyIncomingWebhook hmac (stringify (reqBody req)) signature secret' = Inr True"
    and "map_of kvs ''message'' = None \<or> map_of kvs ''session_id'' = None"
  shows "webhookChat hmac stringify processMessage clock req s
     = (reply 400 ''Missing required fields: message, session_id'', s)"
  using assms by (auto simp: webhookChat_def member_def Let_def)

lemma webhookChat_unverified_keeps_store:
  assumes "\<forall>signature secret'. signatureHeader req = Some signature \<and> secretHeader req = Some secret'
      \<longrightarrow> verifyIncomingWebhook hmac (stringify (reqBody req)) signature secret' \<noteq> Inr True"
  shows "snd (webhookChat hmac stringify processMessage clock req s) = s
     \<and> statusCode (fst (webhookChat hmac stringify processMessage clock req s)) \<in> {401, 500}"
  using assms
  by (auto simp: webhookChat_def reply_def split: option.splits sum.splits)

section \<open>Idempotence of the product synchronisation\<close>

lemma wfP_iff:
  "wfP n ps \<longleftrightarrow> distinct (map fst ps) \<and> (\<forall>(k, p) \<in> set ps. field p ''id'' = k)
     \<and> (\<forall>k \<in> fst ` set ps. \<exists>i. k = JNum (of_nat i) \<and> i < n)"
proof -
  have "(k \<in> (\<lambda>i. JNum (of_nat i)) ` {0..<n}) \<longleftrightarrow> (\<exists>i. k = JNum (of_nat i) \<and> i < n)" for k
    by auto
  then show ?thesis unfolding wfP_def by simp
qed

lemma draftOk_iff: "draftOk d \<longleftrightarrow> d ''id'' = None \<and> (\<exists>x. d ''shopifyId'' = Some (JStr x))"
  by (auto simp: draftOk_def split: option.splits jsval.splits)

lemma find_map_snd: "find P (map snd ps) = map_option snd (find (\<lambda>(k, p). P p) ps)"
  by (induction ps) auto

lemma find_SomeD: "find P xs = Some x \<Longrightarrow> x \<in> set xs \<and> P x"
  by (induction xs) (auto split: if_splits)

lemma target_SomeD: "target ps x = Some (k, p) \<Longrightarrow> (k, p) \<in> set ps \<and> field p ''shopifyId'' = x"
  unfolding target_def by (drule find_SomeD) simp

lemma wfP_map_of: "wfP n ps \<Longrightarrow> (k, p) \<in> set ps \<Longrightarrow> map_of ps k = Some p \<and> field p ''id'' = k"
  by (auto simp: wfP_iff)

lemma update_fresh: "k \<notin> fst ` set ps \<Longrightarrow> AList.update k v ps = ps @ [(k, v)]"
  by (induction ps) auto

lemma wfP_fresh: "wfP n ps \<Longrightarrow> JNum (of_nat n) \<notin> fst ` set ps"
  by (auto simp: wfP_iff)

lemma syncStep_None:
  assumes "productsOk s" and "target (products s) (field d ''shopifyId'') = None"
  shows "getProductByShopifyId (field d ''shopifyId'') s = None"
  using assms(2) by (simp add: getProductByShopifyId_def Map_values_def find_map_snd target_def)

lemma syncStep_Some:
  assumes "productsOk s" and "target (products s) (field d ''shopifyId'') = Some (k, p)"
  shows "getProductByShopifyId (field d ''shopifyId'') s = Some p
    \<and> Map_get (products s) k = Some p \<and> field p ''id'' = k"
proof -
  have "getProductByShopifyId (field d ''shopifyId'') s = Some p"
    using assms(2) by (simp add: getProductByShopifyId_def Map_values_def find_map_snd target_def)
  moreover have "(k, p) \<in> set (products s)" using target_SomeD [OF assms(2)] by simp
  then have "map_of (products s) k = Some p \<and> field p ''id'' = k"
    using assms(1) wfP_map_of unfolding productsOk_def by blast
  ultimately show ?thesis by (simp add: Map_get_def)
qed

lemma syncProducts_step:
  "snd (syncProducts clock (d # ds) s) = snd (syncProducts (\<lambda>i. clock (Suc i)) ds (syncStep (clock 0) d s))"
  by (simp add: syncStep_def split: option.splits prod.splits)

lemma syncStep_effect:
  assumes "productsOk s"
  shows "syncStep t d s = s\<lparr>products := stepP t d (currentId s) (products s),
                             currentId := stepN d (currentId s) (products s)\<rparr>"
proof (cases "target (products s) (field d ''shopifyId'')")
  case None
  then show ?thesis
    using syncStep_None [OF assms None] wfP_fresh [of "currentId s" "products s"] assms
    by (simp add: syncStep_def stepP_def stepN_def createProduct_def nextId_def Map_set_def
        update_fresh productsOk_def Let_def)
next
  case (Some e)
  obtain k p where e: "e = (k, p)" by (cases e)
  show ?thesis
    using syncStep_Some [OF assms Some [unfolded e]] Some e
    by (simp add: syncStep_def stepP_def stepN_def updateProduct_def Map_set_def Let_def)
qed

lemma update_absent_map:
  "k \<notin> fst ` set ps \<Longrightarrow> map (\<lambda>e. (fst e, if fst e = k then v else snd e)) ps = ps"
  by (induction ps) auto

lemma update_present_map:
  assumes "distinct (map fst ps)" and "k \<in> fst ` set ps"
  shows "AList.update k v ps = map (\<lambda>e. (fst e, if fst e = k then v else snd e)) ps"
  using assms by (induction ps) (auto simp: update_absent_map)

lemma find_map_cong:
  assumes "\<And>e. e \<in> set xs \<Longrightarrow> P (g e) = P e"
  shows "find P (map g xs) = map_option g (find P xs)"
  using assms by (induction xs) auto

lemma find_append': "find P (xs @ ys) = (case find P xs of None \<Rightarrow> find P ys | Some x \<Rightarrow> Some x)"
  by (induction xs) auto

lemma draft_shopifyId: "draftOk d \<Longrightarrow> field (d(''id'' \<mapsto> a, ''syncedAt'' \<mapsto> b)) ''shopifyId'' = field d ''shopifyId''"
  by (simp add: field_def)

lemma merged_shopifyId:
  "draftOk d \<Longrightarrow> field ((p ++ d)(''syncedAt'' \<mapsto> b)) ''shopifyId'' = field d ''shopifyId''"
  by (auto simp: field_def draftOk_iff map_add_def)

lemma stepP_keys_shopify:
  assumes "wfP n ps" and "draftOk d" and "target ps (field d ''shopifyId'') = Some (k, p)"
  shows "keyIds (stepP t d n ps) = keyIds ps"
proof -
  from target_SomeD [OF assms(3)] have in_ps: "(k, p) \<in> set ps" and sid: "field p ''shopifyId'' = field d ''shopifyId''"
    by simp_all
  have d: "distinct (map fst ps)" using assms(1) by (simp add: wfP_iff)
  have k: "k \<in> fst ` set ps" using in_ps by (simp add: rev_image_eqI)
  have same: "field (if k' = k then (p ++ d)(''syncedAt'' \<mapsto> JDate t) else p') ''shopifyId'' = field p' ''shopifyId''"
    if "(k', p') \<in> set ps" for k' p'
  proof (cases "k' = k")
    case True
    with that in_ps d have "p' = p" by (meson eq_key_imp_eq_value)
    then show ?thesis using True sid merged_shopifyId [OF assms(2)] by simp
  next
    case False
    then show ?thesis by simp
  qed
  show ?thesis
    using same by (auto simp: keyIds_def stepP_def assms(3) update_present_map [OF d k])
qed

lemma target_cong:
  assumes "keyIds B = keyIds S"
  shows "map_option fst (target B x) = map_option fst (target S x)"
  using assms
proof (induction B arbitrary: S)
  case Nil
  then show ?case by (simp add: keyIds_def)
next
  case (Cons b B)
  then obtain s S' where S: "S = s # S'" by (cases S) (auto simp: keyIds_def)
  with Cons.prems have "fst b = fst s" "field (snd b) ''shopifyId'' = field (snd s) ''shopifyId''"
    and rest: "keyIds B = keyIds S'"
    by (auto simp: keyIds_def)
  then show ?case using Cons.IH [OF rest] S by (auto simp: target_def case_prod_beta)
qed

lemma target_stepP:
  assumes "wfP n ps" and "draftOk d"
  shows "map_option fst (target (stepP t d n ps) (field d ''shopifyId'')) = Some (writtenKey d n ps)"
    and "target ps y = Some (k, p) \<Longrightarrow> map_option fst (target (stepP t d n ps) y) = Some k"
proof -
  show "map_option fst (target (stepP t d n ps) (field d ''shopifyId'')) = Some (writtenKey d n ps)"
  proof (cases "target ps (field d ''shopifyId'')")
    case None
    then show ?thesis
      using draft_shopifyId [OF assms(2)]
      by (simp add: stepP_def writtenKey_def target_def find_append')
  next
    case (Some e)
    obtain k0 p0 where e: "e = (k0, p0)" by (cases e)
    from target_cong [OF stepP_keys_shopify [OF assms Some [unfolded e]], of t "field d ''shopifyId''"]
    show ?thesis using Some e by (simp add: writtenKey_def)
  qed
  show "map_option fst (target (stepP t d n ps) y) = Some k" if y: "target ps y = Some (k, p)"
  proof (cases "target ps (field d ''shopifyId'')")
    case None
    then show ?thesis using y by (simp add: stepP_def target_def find_append')
  next
    case (Some e)
    obtain k0 p0 where e: "e = (k0, p0)" by (cases e)
    from target_cong [OF stepP_keys_shopify [OF assms Some [unfolded e]], of t y]
    show ?thesis using y by simp
  qed
qed

lemma keyIds_fst: "map fst (keyIds ps) = map fst ps"
  by (simp add: keyIds_def)

lemma keyIds_keys: "keyIds B = keyIds S \<Longrightarrow> map fst B = map fst S"
  using keyIds_fst [of B] keyIds_fst [of S] by simp

lemma set_update_subset: "set (AList.update k v ps) \<subseteq> insert (k, v) (set ps)"
  by (induction ps) auto

lemma wfP_stepP:
  assumes "wfP n ps" and "draftOk d"
  shows "wfP (stepN d n ps) (stepP t d n ps)"
proof (cases "target ps (field d ''shopifyId'')")
  case None
  have "JNum (of_nat n) \<notin> fst ` set ps" by (rule wfP_fresh [OF assms(1)])
  moreover have "\<exists>i. k = JNum (of_nat i) \<and> i < Suc n" if "k \<in> fst ` set ps" for k
  proof -
    from that assms(1) obtain i where "k = JNum (of_nat i) \<and> i < n" unfolding wfP_iff by blast
    then have "k = JNum (of_nat i) \<and> i < Suc n" by simp
    then show ?thesis ..
  qed
  ultimately show ?thesis
    using assms None
    by (auto simp: wfP_iff stepP_def stepN_def field_def)
next
  case (Some e)
  obtain k p where e: "e = (k, p)" by (cases e)
  note tgt = Some [unfolded e]
  from target_SomeD [OF tgt] have in_ps: "(k, p) \<in> set ps" by simp
  have keys: "map fst (stepP t d n ps) = map fst ps"
    by (rule keyIds_keys [OF stepP_keys_shopify [OF assms tgt]])
  have idk: "field p ''id'' = k" using wfP_map_of [OF assms(1) in_ps] by simp
  have new: "field ((p ++ d)(''syncedAt'' \<mapsto> JDate t)) ''id'' = k"
    using idk assms(2) by (simp add: field_def draftOk_iff map_add_def)
  have "field p' ''id'' = k'" if "(k', p') \<in> set (stepP t d n ps)" for k' p'
  proof -
    from that have "(k', p') \<in> insert (k, (p ++ d)(''syncedAt'' \<mapsto> JDate t)) (set ps)"
      using set_update_subset [of k _ ps] by (auto simp: stepP_def tgt)
    then show ?thesis using new assms(1) by (auto simp: wfP_iff)
  qed
  moreover have "distinct (map fst (stepP t d n ps))"
    using keys assms(1) by (simp add: wfP_iff)
  moreover have "fst ` set (stepP t d n ps) = fst ` set ps"
    using keys by (metis set_map)
  ultimately show ?thesis
    using assms(1) by (auto simp: wfP_iff stepN_def tgt)
qed

lemma target_runP:
  assumes "\<forall>d \<in> set ds. draftOk d" and "wfP n ps" and "map_option fst (target ps y) = Some k"
  shows "map_option fst (target (snd (runP c ds n ps)) y) = Some k"
  using assms
proof (induction ds arbitrary: n ps c)
  case Nil
  then show ?case by simp
next
  case (Cons d ds)
  from Cons.prems(3) obtain p where "target ps y = Some (k, p)" by auto
  then have "map_option fst (target (stepP (c 0) d n ps) y) = Some k"
    using target_stepP(2) Cons.prems by simp
  moreover have "wfP (stepN d n ps) (stepP (c 0) d n ps)"
    using wfP_stepP Cons.prems by simp
  ultimately show ?case using Cons.IH Cons.prems(1) by simp
qed

lemma wfP_runP:
  assumes "\<forall>d \<in> set ds. draftOk d" and "wfP n ps"
  shows "wfP (fst (runP c ds n ps)) (snd (runP c ds n ps))"
  using assms
proof (induction ds arbitrary: n ps c)
  case Nil
  then show ?case by simp
next
  case (Cons d ds)
  have "wfP (stepN d n ps) (stepP (c 0) d n ps)"
    using wfP_stepP Cons.prems by simp
  then show ?case using Cons.IH Cons.prems(1) by simp
qed

lemma map_of_stepP:
  assumes "wfP n ps"
  shows "map_of (stepP t d n ps)
     = (map_of ps)(writtenKey d n ps \<mapsto> written t d (writtenKey d n ps) (map_of ps (writtenKey d n ps)))"
proof (cases "target ps (field d ''shopifyId'')")
  case None
  have fresh: "map_of ps (JNum (of_nat n)) = None"
    using wfP_fresh [OF assms] by (simp add: map_of_eq_None_iff)
  show ?thesis
    using None fresh
    by (auto simp: stepP_def writtenKey_def written_def map_add_def fun_eq_iff split: option.splits)
next
  case (Some e)
  obtain k p where e: "e = (k, p)" by (cases e)
  note tgt = Some [unfolded e]
  from target_SomeD [OF tgt] have "(k, p) \<in> set ps" by simp
  then have "map_of ps k = Some p" using wfP_map_of [OF assms] by simp
  then show ?thesis
    by (simp add: stepP_def writtenKey_def written_def tgt update_conv')
qed

lemma eraseAll_eqI:
  assumes keys: "map fst B = map fst S" and dist: "distinct (map fst B)"
    and same: "\<And>k pb ps f. map_of B k = Some pb \<Longrightarrow> map_of S k = Some ps \<Longrightarrow> f \<noteq> ''syncedAt''
        \<Longrightarrow> pb f = ps f"
  shows "eraseAll B = eraseAll S"
proof -
  have len: "length B = length S" using keys by (metis length_map)
  have "eraseAll B ! i = eraseAll S ! i" if i: "i < length B" for i
  proof -
    have kB: "fst (B ! i) = fst (S ! i)"
      using keys i len by (metis nth_map)
    have "map_of B (fst (B ! i)) = Some (snd (B ! i))"
      using dist i by (simp add: map_of_eq_Some_iff)
    moreover have "map_of S (fst (S ! i)) = Some (snd (S ! i))"
      using dist keys i len by (simp add: map_of_eq_Some_iff)
    ultimately have "snd (B ! i) f = snd (S ! i) f" if "f \<noteq> ''syncedAt''" for f
      using same that kB by metis
    then have "(snd (B ! i))(''syncedAt'' := None) = (snd (S ! i))(''syncedAt'' := None)"
      by (auto simp: fun_eq_iff)
    then show ?thesis using i len kB by (simp add: eraseAll_def)
  qed
  then show ?thesis using len by (intro nth_equalityI) (simp_all add: eraseAll_def)
qed

lemma lockstep:
  assumes "\<forall>d \<in> set ds. draftOk d" and "wfP n A" and "wfP m B"
    and "snd (runP c ds n A) = S" and "keyIds B = keyIds S" and "agree A B S"
  shows "eraseAll (snd (runP c' ds m B)) = eraseAll S \<and> fst (runP c' ds m B) = m"
  using assms
proof (induction ds arbitrary: n A m B c c')
  case Nil
  then have AS: "A = S" by simp
  have "eraseAll B = eraseAll S"
  proof (rule eraseAll_eqI)
    show "map fst B = map fst S" by (rule keyIds_keys [OF Nil.prems(5)])
    show "distinct (map fst B)" using Nil.prems(3) by (simp add: wfP_iff)
    show "pb f = ps f" if "map_of B k = Some pb" "map_of S k = Some ps" "f \<noteq> ''syncedAt''" for k pb ps f
      using Nil.prems(6) that unfolding agree_def AS by fastforce
  qed
  then show ?case by simp
next
  case (Cons d ds)
  let ?x = "field d ''shopifyId''"
  let ?ka = "writtenKey d n A"
  let ?A' = "stepP (c 0) d n A"
  let ?B' = "stepP (c' 0) d m B"
  have dOk: "draftOk d" and dsOk: "\<forall>d \<in> set ds. draftOk d" using Cons.prems(1) by simp_all
  have wfA': "wfP (stepN d n A) ?A'" by (rule wfP_stepP [OF Cons.prems(2) dOk])
  have run: "snd (runP (\<lambda>i. c (Suc i)) ds (stepN d n A) ?A') = S" using Cons.prems(4) by simp
  have "map_option fst (target ?A' ?x) = Some ?ka" by (rule target_stepP(1) [OF Cons.prems(2) dOk])
  then have "map_option fst (target S ?x) = Some ?ka"
    using target_runP [OF dsOk wfA'] run by metis
  then have "map_option fst (target B ?x) = Some ?ka"
    using target_cong [OF Cons.prems(5)] by simp
  then obtain pb0 where tgtB: "target B ?x = Some (?ka, pb0)" by auto
  have stepN_B: "stepN d m B = m" by (simp add: stepN_def tgtB)
  have wkB: "writtenKey d m B = ?ka" by (simp add: writtenKey_def tgtB)
  have wfB': "wfP m ?B'" using wfP_stepP [OF Cons.prems(3) dOk, of "c' 0"] stepN_B by simp
  have keys': "keyIds ?B' = keyIds S"
    using stepP_keys_shopify [OF Cons.prems(3) dOk tgtB] Cons.prems(5) by simp
  have mB: "map_of B ?ka = Some pb0"
    using wfP_map_of [OF Cons.prems(3)] target_SomeD [OF tgtB] by simp
  have mB': "map_of ?B' = (map_of B)(?ka \<mapsto> (pb0 ++ d)(''syncedAt'' \<mapsto> JDate (c' 0)))"
    using map_of_stepP [OF Cons.prems(3), of "c' 0" d] by (simp add: wkB mB written_def)
  have mA': "map_of ?A' = (map_of A)(?ka \<mapsto> written (c 0) d ?ka (map_of A ?ka))"
    by (rule map_of_stepP [OF Cons.prems(2)])
  have ag': "agree ?A' ?B' S"
    unfolding agree_def
  proof (intro allI impI)
    fix k pb ps f
    assume b: "map_of ?B' k = Some pb" and s: "map_of S k = Some ps" and f: "f \<noteq> ''syncedAt''"
    show "pb f = ps f \<or> (\<exists>pa. map_of ?A' k = Some pa \<and> pb f = pa f)"
    proof (cases "k = ?ka")
      case False
      then have "map_of B k = Some pb" using b mB' by simp
      then have "pb f = ps f \<or> (\<exists>pa. map_of A k = Some pa \<and> pb f = pa f)"
        using Cons.prems(6) s f unfolding agree_def by blast
      then show ?thesis using False mA' by simp
    next
      case True
      then have pb: "pb = (pb0 ++ d)(''syncedAt'' \<mapsto> JDate (c' 0))" using b mB' by simp
      have a': "map_of ?A' k = Some (written (c 0) d ?ka (map_of A ?ka))" using True mA' by simp
      show ?thesis
      proof (cases "d f")
        case (Some v)
        then have "f \<noteq> ''id''" using dOk by (auto simp: draftOk_iff)
        then have "written (c 0) d ?ka (map_of A ?ka) f = Some v"
          using Some f by (simp add: written_def map_add_def split: option.splits)
        moreover have "pb f = Some v" using Some f pb by (simp add: map_add_def)
        ultimately show ?thesis using a' by simp
      next
        case None
        then have pbf: "pb f = pb0 f" using f pb by (simp add: map_add_def)
        from Cons.prems(6) mB s f True
        consider "pb0 f = ps f" | pa where "map_of A ?ka = Some pa" "pb0 f = pa f"
          unfolding agree_def by blast
        then show ?thesis
        proof cases
          case 1
          then show ?thesis using pbf by simp
        next
          case 2
          then have "written (c 0) d ?ka (map_of A ?ka) f = pa f"
            using None f by (simp add: written_def map_add_def)
          then show ?thesis using a' pbf 2 by simp
        qed
      qed
    qed
  qed
  have "eraseAll (snd (runP (\<lambda>i. c' (Suc i)) ds m ?B')) = eraseAll S
      \<and> fst (runP (\<lambda>i. c' (Suc i)) ds m ?B') = m"
    by (rule Cons.IH [OF dsOk wfA' wfB' run keys' ag'])
  then show ?case by (simp add: stepN_B)
qed

lemma productsOk_syncStep:
  assumes "productsOk s" and "draftOk d"
  shows "productsOk (syncStep t d s)"
  using wfP_stepP [OF assms(1) [unfolded productsOk_def] assms(2), of t]
  by (simp add: syncStep_effect [OF assms(1)] productsOk_def)

lemma syncProducts_runP:
  assumes "\<forall>d \<in> set ds. draftOk d" and "productsOk s"
  shows "snd (syncProducts c ds s)
     = s\<lparr>products := snd (runP c ds (currentId s) (products s)),
          currentId := fst (runP c ds (currentId s) (products s))\<rparr>"
  using assms
proof (induction ds arbitrary: s c)
  case Nil
  then show ?case by simp
next
  case (Cons d ds)
  have ok: "productsOk (syncStep (c 0) d s)"
    using productsOk_syncStep Cons.prems by simp
  show ?case
    unfolding syncProducts_step
    using Cons.IH [OF _ ok, of "\<lambda>i. c (Suc i)"] Cons.prems(1)
    by (simp add: syncStep_effect [OF Cons.prems(2)])
qed

lemma length_syncProducts:
  assumes "\<forall>d \<in> set ds. draftOk d" and "productsOk s"
  shows "length (fst (syncProducts c ds s)) = length ds"
  using assms
proof (induction ds arbitrary: s c)
  case Nil
  then show ?case by simp
next
  case (Cons d ds)
  have ok: "productsOk (syncStep (c 0) d s)"
    using productsOk_syncStep Cons.prems by simp
  show ?case
  proof (cases "target (products s) (field d ''shopifyId'')")
    case None
    have g: "getProductByShopifyId (field d ''shopifyId'') s = None"
      by (rule syncStep_None [OF Cons.prems(2) None])
    have "length (fst (syncProducts (\<lambda>i. c (Suc i)) ds (snd (createProduct (c 0) d s)))) = length ds"
      using Cons.IH [of "syncStep (c 0) d s" "\<lambda>i. c (Suc i)"] ok Cons.prems(1)
      by (simp add: syncStep_def g)
    then show ?thesis by (simp add: g case_prod_beta)
  next
    case (Some e)
    obtain k p where e: "e = (k, p)" by (cases e)
    from syncStep_Some [OF Cons.prems(2) Some [unfolded e]]
    have g: "getProductByShopifyId (field d ''shopifyId'') s = Some p"
      and m: "Map_get (products s) k = Some p" and i: "field p ''id'' = k" by simp_all
    have "length (fst (syncProducts (\<lambda>i. c (Suc i)) ds (snd (updateProduct (c 0) k d s)))) = length ds"
      using Cons.IH [of "syncStep (c 0) d s" "\<lambda>i. c (Suc i)"] ok Cons.prems(1)
      by (simp add: syncStep_def g i)
    moreover have "fst (updateProduct (c 0) k d s) \<noteq> None"
      by (simp add: updateProduct_def m Let_def)
    ultimately show ?thesis
      by (cases "updateProduct (c 0) k d s") (auto simp: g i case_prod_beta)
  qed
qed

lemma length_eraseAll: "length (eraseAll ps) = length ps"
  by (simp add: eraseAll_def)

lemma shopifyIds_eraseAll:
  "map (\<lambda>e. field (snd e) ''shopifyId'') (eraseAll ps) = map (\<lambda>e. field (snd e) ''shopifyId'') ps"
  by (simp add: eraseAll_def field_def)

text \<open>
  The shape \<open>productsOk\<close> holds in the empty store and is kept by every operation of the
  store, provided an \<^verbatim>\<open>updateProduct\<close> is not given an \<^verbatim>\<open>id\<close> to overwrite and the drafts
  of a \<^verbatim>\<open>syncProducts\<close> are drafts with external ids.
\<close>

lemma wfP_mono: "wfP n ps \<Longrightarrow> n \<le> m \<Longrightarrow> wfP m ps"
  unfolding wfP_iff by (meson less_le_trans)

lemma productsOk_MemStorage: "productsOk MemStorage"
  by (simp add: productsOk_def wfP_iff MemStorage_def)

lemma productsOk_createProduct:
  assumes "productsOk s"
  shows "productsOk (snd (createProduct t d s))"
proof -
  let ?k = "JNum (of_nat (currentId s))"
  have wf: "wfP (currentId s) (products s)" using assms by (simp add: productsOk_def)
  have fresh: "?k \<notin> fst ` set (products s)" by (rule wfP_fresh [OF wf])
  have "wfP (Suc (currentId s)) (products s)" by (rule wfP_mono [OF wf]) simp
  then have "wfP (Suc (currentId s)) (products s @ [(?k, d(''id'' \<mapsto> ?k, ''syncedAt'' \<mapsto> JDate t))])"
    using fresh by (auto simp: wfP_iff field_def)
  then show ?thesis
    using fresh by (simp add: productsOk_def createProduct_def nextId_def Let_def Map_set_def update_fresh)
qed

lemma productsOk_updateProduct:
  assumes "productsOk s" and "u ''id'' = None"
  shows "productsOk (snd (updateProduct t k u s))"
proof (cases "Map_get (products s) k")
  case None
  then show ?thesis using assms(1) by (simp add: updateProduct_def)
next
  case (Some p)
  have wf: "wfP (currentId s) (products s)" using assms(1) by (simp add: productsOk_def)
  have in_ps: "(k, p) \<in> set (products s)" using Some by (simp add: Map_get_def map_of_SomeD)
  then have kin: "k \<in> fst ` set (products s)" by (simp add: rev_image_eqI)
  let ?v = "(p ++ u)(''syncedAt'' \<mapsto> JDate t)"
  have keys: "map fst (AList.update k ?v (products s)) = map fst (products s)"
    using kin by (simp add: update_keys)
  have idk: "field ?v ''id'' = k"
    using wfP_map_of [OF wf in_ps] assms(2) by (simp add: field_def map_add_def)
  have "field p' ''id'' = k'" if "(k', p') \<in> set (AList.update k ?v (products s))" for k' p'
  proof -
    from that have "(k', p') \<in> insert (k, ?v) (set (products s))"
      using set_update_subset [of k ?v "products s"] by blast
    then show ?thesis using idk wf by (auto simp: wfP_iff)
  qed
  moreover have "fst ` set (AList.update k ?v (products s)) = fst ` set (products s)"
    using keys by (metis set_map)
  ultimately have "wfP (currentId s) (AList.update k ?v (products s))"
    using wf keys by (auto simp: wfP_iff)
  then show ?thesis by (simp add: productsOk_def updateProduct_def Some Let_def Map_set_def)
qed

lemma productsOk_perform:
  assumes "productsOk s" and "keepsIds x"
  shows "productsOk (snd (perform x s))"
proof (cases x)
  case (CreateProduct now d)
  then show ?thesis using productsOk_createProduct [OF assms(1)] by simp
next
  case (UpdateProduct now k u)
  then show ?thesis using productsOk_updateProduct [OF assms(1)] assms(2) by simp
next
  case (SyncProducts clock ds)
  then have ds: "\<forall>d \<in> set ds. draftOk d" using assms(2) by (simp add: list_all_iff)
  have "wfP (fst (runP clock ds (currentId s) (products s))) (snd (runP clock ds (currentId s) (products s)))"
    using wfP_runP [OF ds] assms(1) by (simp add: productsOk_def)
  then show ?thesis
    using SyncProducts by (simp add: syncProducts_runP [OF ds assms(1)] productsOk_def)
qed (use assms(1) in \<open>auto simp: productsOk_def create_defs update_defs deleteWebhook_def Let_def
      split: option.splits intro: wfP_mono\<close>)

text \<open>
  Idempotence on a store of the shape \<open>productsOk\<close>: the second pass leaves the products
  Map as the first left it up to \<^verbatim>\<open>syncedAt\<close>, creates nothing, and both passes return
  one product per draft.
\<close>

lemma syncProducts_idempotent_shape:
  assumes "productsOk s" and "\<forall>d \<in> set ds. draftOk d"
  shows "eraseAll (products (snd (syncProducts c2 ds (snd (syncProducts c1 ds s)))))
           = eraseAll (products (snd (syncProducts c1 ds s)))
    \<and> length (products (snd (syncProducts c2 ds (snd (syncProducts c1 ds s)))))
           = length (products (snd (syncProducts c1 ds s)))
    \<and> map (\<lambda>e. field (snd e) ''shopifyId'')
          (products (snd (syncProducts c2 ds (snd (syncProducts c1 ds s)))))
           = map (\<lambda>e. field (snd e) ''shopifyId'') (products (snd (syncProducts c1 ds s)))
    \<and> snd (syncProducts c2 ds (snd (syncProducts c1 ds s)))
           = (snd (syncProducts c1 ds s))
               \<lparr>products := products (snd (syncProducts c2 ds (snd (syncProducts c1 ds s))))\<rparr>
    \<and> length (fst (syncProducts c1 ds s)) = length ds
    \<and> length (fst (syncProducts c2 ds (snd (syncProducts c1 ds s)))) = length ds"
proof -
  let ?s1 = "snd (syncProducts c1 ds s)"
  let ?n = "currentId s" and ?A = "products s"
  have s1: "?s1 = s\<lparr>products := snd (runP c1 ds ?n ?A), currentId := fst (runP c1 ds ?n ?A)\<rparr>"
    by (rule syncProducts_runP [OF assms(2,1)])
  have wfA: "wfP ?n ?A" using assms(1) by (simp add: productsOk_def)
  have wfS: "wfP (currentId ?s1) (products ?s1)"
    using wfP_runP [OF assms(2) wfA, of c1] by (simp add: s1)
  then have ok1: "productsOk ?s1" by (simp add: productsOk_def)
  have s2: "snd (syncProducts c2 ds ?s1)
      = ?s1\<lparr>products := snd (runP c2 ds (currentId ?s1) (products ?s1)),
             currentId := fst (runP c2 ds (currentId ?s1) (products ?s1))\<rparr>"
    by (rule syncProducts_runP [OF assms(2) ok1])
  have run: "snd (runP c1 ds ?n ?A) = products ?s1" by (simp add: s1)
  have ag: "agree ?A (products ?s1) (products ?s1)" by (simp add: agree_def)
  have lock: "eraseAll (snd (runP c2 ds (currentId ?s1) (products ?s1))) = eraseAll (products ?s1)
      \<and> fst (runP c2 ds (currentId ?s1) (products ?s1)) = currentId ?s1"
    by (rule lockstep [OF assms(2) wfA wfS run refl ag])
  have erased: "eraseAll (products (snd (syncProducts c2 ds ?s1))) = eraseAll (products ?s1)"
    using lock by (simp add: s2)
  have "length (products (snd (syncProducts c2 ds ?s1))) = length (products ?s1)"
    using arg_cong [OF erased, of length] by (simp only: length_eraseAll)
  moreover have "map (\<lambda>e. field (snd e) ''shopifyId'') (products (snd (syncProducts c2 ds ?s1)))
      = map (\<lambda>e. field (snd e) ''shopifyId'') (products ?s1)"
    using arg_cong [OF erased, of "map (\<lambda>e. field (snd e) ''shopifyId'')"]
    by (simp only: shopifyIds_eraseAll)
  moreover have "snd (syncProducts c2 ds ?s1)
      = ?s1\<lparr>products := products (snd (syncProducts c2 ds ?s1))\<rparr>"
    using lock by (simp add: s2)
  moreover have "length (fst (syncProducts c1 ds s)) = length ds"
    by (rule length_syncProducts [OF assms(2,1)])
  moreover have "length (fst (syncProducts c2 ds ?s1)) = length ds"
    by (rule length_syncProducts [OF assms(2) ok1])
  ultimately show ?thesis using erased by blast
qed

text \<open>
  In a reachable store the keys of the products Map are distinct and below the counter, so
  the shape \<open>productsOk\<close> comes down to one condition: the \<^verbatim>\<open>id\<close> property of every
  stored product is its key.
\<close>

lemma distinct_Map_set: "distinct (Map_keys m) \<Longrightarrow> distinct (Map_keys (Map_set k v m))"
  by (simp add: Map_keys_def Map_set_def distinct_update)

lemma distinct_products_syncProducts:
  "distinct (Map_keys (products s)) \<Longrightarrow> distinct (Map_keys (products (snd (syncProducts clock ds s))))"
proof (induction ds arbitrary: s clock)
  case Nil
  then show ?case by simp
next
  case (Cons d ds)
  have "distinct (Map_keys (products (snd (createProduct (clock 0) d s))))"
    using Cons.prems by (simp add: createProduct_def nextId_def Let_def distinct_Map_set)
  moreover have "distinct (Map_keys (products (snd (updateProduct (clock 0) k d s))))" for k
    using Cons.prems by (simp add: updateProduct_def Let_def distinct_Map_set split: option.splits)
  ultimately show ?case
    unfolding syncProducts_Cons
    by (intro Cons.IH) (simp split: option.splits)
qed

lemma distinct_products_perform:
  assumes "distinct (Map_keys (products s))"
  shows "distinct (Map_keys (products (snd (perform x s))))"
proof (cases x)
  case (SyncProducts clock ds)
  then show ?thesis using distinct_products_syncProducts [OF assms] by simp
qed (use assms in \<open>auto simp: create_defs update_defs deleteWebhook_def Let_def distinct_Map_set
      split: option.splits\<close>)

lemma reachable_distinct_products: "reachable s \<Longrightarrow> distinct (Map_keys (products s))"
  by (induction rule: reachable.induct)
    (simp_all add: MemStorage_def Map_keys_def distinct_products_perform [unfolded Map_keys_def])

lemma reachable_productsOk:
  assumes "reachable s" and "list_all (\<lambda>e. field (snd e) ''id'' = fst e) (products s)"
  shows "productsOk s"
proof -
  have "distinct (map fst (products s))"
    using reachable_distinct_products [OF assms(1)] by (simp add: Map_keys_def)
  moreover have "\<forall>(k, p) \<in> set (products s). field p ''id'' = k"
    using assms(2) by (auto simp: list_all_iff)
  moreover have "\<forall>k \<in> fst ` set (products s). \<exists>i. k = JNum (of_nat i) \<and> i < currentId s"
    using reachable_idsBelow [OF assms(1)] by (auto simp: idsBelow_iff allKeys_def Map_keys_def)
  ultimately show ?thesis by (simp add: productsOk_def wfP_iff)
qed

text \<open>
  C5, as the claim states it, fails: \<open>overwrittenStore\<close> is reachable and both drafts carry
  an external id, yet the first pass leaves two products and the second pass, over the
  same list, leaves three, two of them with the external id A. The first stored product
  has \<^verbatim>\<open>id\<close> 2, so the draft found under external id A is written to the product
  with key 2, whose external id B is thereby replaced; the second pass no longer finds B
  and creates it.
\<close>

theorem resync_duplicates_counterexample:
  "reachable overwrittenStore \<and> draftOk tableDraft \<and> draftOk chairDraft
   \<and> Map_keys (products overwrittenStore) = [JNum 1, JNum 2]
   \<and> Map_keys (products (snd (syncProducts (\<lambda>i. 10 + i) [tableDraft, chairDraft] overwrittenStore)))
       = [JNum 1, JNum 2]
   \<and> Map_keys (products (snd (syncProducts (\<lambda>i. 20 + i) [tableDraft, chairDraft]
         (snd (syncProducts (\<lambda>i. 10 + i) [tableDraft, chairDraft] overwrittenStore)))))
       = [JNum 1, JNum 2, JNum 3]
   \<and> map (\<lambda>e. field (snd e) ''shopifyId'')
        (products (snd (syncProducts (\<lambda>i. 20 + i) [tableDraft, chairDraft]
         (snd (syncProducts (\<lambda>i. 10 + i) [tableDraft, chairDraft] overwrittenStore)))))
       = [JStr ''A'', JStr ''A'', JStr ''B'']"
proof -
  have r: "reachable overwrittenStore"
    unfolding overwrittenStore_def by (rule reachable_performAll [OF reachable.init])
  have d: "draftOk tableDraft \<and> draftOk chairDraft"
    by (simp add: draftOk_def tableDraft_def chairDraft_def)
  have e: "Map_keys (products overwrittenStore) = [JNum 1, JNum 2]
   \<and> Map_keys (products (snd (syncProducts (\<lambda>i. 10 + i) [tableDraft, chairDraft] overwrittenStore)))
       = [JNum 1, JNum 2]
   \<and> Map_keys (products (snd (syncProducts (\<lambda>i. 20 + i) [tableDraft, chairDraft]
         (snd (syncProducts (\<lambda>i. 10 + i) [tableDraft, chairDraft] overwrittenStore)))))
       = [JNum 1, JNum 2, JNum 3]
   \<and> map (\<lambda>e. field (snd e) ''shopifyId'')
        (products (snd (syncProducts (\<lambda>i. 20 + i) [tableDraft, chairDraft]
         (snd (syncProducts (\<lambda>i. 10 + i) [tableDraft, chairDraft] overwrittenStore)))))
       = [JStr ''A'', JStr ''A'', JStr ''B'']"
    by (simp add: overwrittenStore_def tableDraft_def chairDraft_def store_eval map_add_def)
  show ?thesis using r d e by blast
qed

text \<open>
  C5, amended: let the store be reachable, let the \<^verbatim>\<open>id\<close> property of every stored
  product be its key, and let every draft of the list be an \<^verbatim>\<open>InsertProduct\<close> (no
  \<^verbatim>\<open>id\<close> property) whose \<^verbatim>\<open>shopifyId\<close> is a string. Sync the list once (clock
  \<open>c1\<close>), then once more (clock \<open>c2\<close>). The second pass leaves the products Map as the
  first left it, record by record and property by property, up to \<^verbatim>\<open>syncedAt\<close>: the same
  keys in the same order, the same number of records, the same external ids. It creates
  nothing: the counter and the other Maps are those of the first pass. Both passes return
  one product per draft.
\<close>

theorem syncProducts_idempotent:
  assumes "reachable s"
    and "list_all (\<lambda>e. field (snd e) ''id'' = fst e) (products s)"
    and "list_all draftOk ds"
  shows "eraseAll (products (snd (syncProducts c2 ds (snd (syncProducts c1 ds s)))))
           = eraseAll (products (snd (syncProducts c1 ds s)))
    \<and> length (products (snd (syncProducts c2 ds (snd (syncProducts c1 ds s)))))
           = length (products (snd (syncProducts c1 ds s)))
    \<and> map (\<lambda>e. field (snd e) ''shopifyId'')
          (products (snd (syncProducts c2 ds (snd (syncProducts c1 ds s)))))
           = map (\<lambda>e. field (snd e) ''shopifyId'') (products (snd (syncProducts c1 ds s)))
    \<and> snd (syncProducts c2 ds (snd (syncProducts c1 ds s)))
           = (snd (syncProducts c1 ds s))
               \<lparr>products := products (snd (syncProducts c2 ds (snd (syncProducts c1 ds s))))\<rparr>
    \<and> length (fst (syncProducts c1 ds s)) = length ds
    \<and> length (fst (syncProducts c2 ds (snd (syncProducts c1 ds s)))) = length ds"
proof -
  have ok: "productsOk s" by (rule reachable_productsOk [OF assms(1,2)])
  have ds: "\<forall>d \<in> set ds. draftOk d" using assms(3) by (simp add: list_all_iff)
  show ?thesis by (rule syncProducts_idempotent_shape [OF ok ds])
qed

theorem syncProducts_idempotent_witness:
  "reachable stockedStore
   \<and> list_all (\<lambda>e. field (snd e) ''id'' = fst e) (products stockedStore)
   \<and> list_all draftOk [lampDraft, deskDraft, lampSale]
   \<and> Map_keys (products stockedStore) = [JNum 2]
   \<and> Map_keys (products (snd (syncProducts (\<lambda>i. 10 + i) [lampDraft, deskDraft, lampSale] stockedStore)))
       = [JNum 2, JNum 3]
   \<and> map (\<lambda>e. field (snd e) ''price'')
        (products (snd (syncProducts (\<lambda>i. 10 + i) [lampDraft, deskDraft, lampSale] stockedStore)))
       = [JStr ''120.00'', JStr ''14.99'']
   \<and> eraseAll (products (snd (syncProducts (\<lambda>i. 20 + i) [lampDraft, deskDraft, lampSale]
         (snd (syncProducts (\<lambda>i. 10 + i) [lampDraft, deskDraft, lampSale] stockedStore)))))
       = eraseAll (products (snd (syncProducts (\<lambda>i. 10 + i) [lampDraft, deskDraft, lampSale] stockedStore)))
   \<and> length (products (snd (syncProducts (\<lambda>i. 20 + i) [lampDraft, deskDraft, lampSale]
         (snd (syncProducts (\<lambda>i. 10 + i) [lampDraft, deskDraft, lampSale] stockedStore)))))
       = 2"
proof -
  have r: "reachable stockedStore"
    unfolding stockedStore_def by (rule reachable_performAll [OF reachable.init])
  have i: "list_all (\<lambda>e. field (snd e) ''id'' = fst e) (products stockedStore)"
    by (simp add: stockedStore_def store_eval)
  have d: "list_all draftOk [lampDraft, deskDraft, lampSale]"
    by (simp add: draftOk_def lampDraft_def deskDraft_def lampSale_def)
  have e: "Map_keys (products stockedStore) = [JNum 2]
   \<and> Map_keys (products (snd (syncProducts (\<lambda>i. 10 + i) [lampDraft, deskDraft, lampSale] stockedStore)))
       = [JNum 2, JNum 3]
   \<and> map (\<lambda>e. field (snd e) ''price'')
        (products (snd (syncProducts (\<lambda>i. 10 + i) [lampDraft, deskDraft, lampSale] stockedStore)))
       = [JStr ''120.00'', JStr ''14.99'']"
    by (simp add: stockedStore_def lampDraft_def deskDraft_def lampSale_def store_eval map_add_def)
  have len1: "length (products (snd (syncProducts (\<lambda>i. 10 + i) [lampDraft, deskDraft, lampSale] stockedStore))) = 2"
    using e by (metis Map_keys_def length_map length_Cons list.size(3) One_nat_def Suc_1)
  from syncProducts_idempotent [OF r i d, of "\<lambda>i. 20 + i" "\<lambda>i. 10 + i"]
  show ?thesis using r i d e len1 by simp
qed

end
